theory Spec2Isabelle
  imports Complex_Main "HOL-Library.AList" "HOL-Library.Log_Nat"
begin

section \<open>Python numbers\<close>

text \<open>
  The exceptions that the modelled statements raise: any error of OpenCV, and the three
  arithmetic errors of Python.
\<close>

datatype error = CvError | ZeroDivisionError | OverflowError | ValueError

text \<open>
  A Python \<open>float\<close> is an IEEE 754 binary64 value: a finite number, kept as the rational
  it denotes, with the negative zero apart, the two infinities, or a NaN. The result of
  an operation is the exact result rounded to the nearest representable number, ties to
  the even significand: a number of magnitude at least \<open>2 ^ e\<close> and less than
  \<open>2 ^ (e + 1)\<close> is a multiple of the quantum \<open>2 ^ (e - 52)\<close>, the quantum is never less
  than \<open>2 ^ - 1074\<close>, and a magnitude that rounds to \<open>2 ^ 1024\<close> or more becomes an
  infinity.
\<close>

datatype double = Finite rat | NegZero | PosInf | NegInf | NaN

definition pow2 :: "int \<Rightarrow> rat" where
  "pow2 k = (if 0 \<le> k then of_int (2 ^ nat k) else 1 / of_int (2 ^ nat (- k)))"

text \<open>The exponent \<open>e\<close> with \<open>2 ^ e \<le> x < 2 ^ (e + 1)\<close>, for a positive \<open>x\<close>.\<close>

definition ilog2 :: "rat \<Rightarrow> int" where
  "ilog2 x =
     (let e0 = bitlen (fst (quotient_of x)) - bitlen (snd (quotient_of x))
      in if pow2 e0 \<le> x then e0 else e0 - 1)"

definition round_half_even :: "rat \<Rightarrow> int" where
  "round_half_even m =
     (let f = \<lfloor>m\<rfloor>; d = m - of_int f
      in if d < 1 / 2 then f else if 1 / 2 < d then f + 1 else if even f then f else f + 1)"

text \<open>The rounding of a positive magnitude; \<open>None\<close> is the overflow.\<close>

definition round_magnitude :: "rat \<Rightarrow> rat option" where
  "round_magnitude x =
     (let quantum = pow2 (max (ilog2 x - 52) (- 1074));
          v = of_int (round_half_even (x / quantum)) * quantum
      in if pow2 1024 \<le> v then None else Some v)"

definition round_double :: "rat \<Rightarrow> double" where
  "round_double x =
     (if x = 0 then Finite 0
      else if 0 < x then (case round_magnitude x of None \<Rightarrow> PosInf | Some v \<Rightarrow> Finite v)
      else (case round_magnitude (- x) of
              None \<Rightarrow> NegInf
            | Some v \<Rightarrow> if v = 0 then NegZero else Finite (- v)))"

definition is_zero :: "double \<Rightarrow> bool" where
  "is_zero a \<longleftrightarrow> a = Finite 0 \<or> a = NegZero"

definition is_inf :: "double \<Rightarrow> bool" where
  "is_inf a \<longleftrightarrow> a = PosInf \<or> a = NegInf"

text \<open>The sign bit, and the value of a finite number.\<close>

fun negative :: "double \<Rightarrow> bool" where
  "negative (Finite r) = (r < 0)"
| "negative NegZero = True"
| "negative NegInf = True"
| "negative PosInf = False"
| "negative NaN = False"

fun magnitude :: "double \<Rightarrow> rat" where
  "magnitude (Finite r) = r"
| "magnitude a = 0"

text \<open>The rounded result of an operation whose exact result is \<open>x\<close> and whose sign bit,
  which only shows in a zero result, is \<open>s\<close>.\<close>

definition signed :: "bool \<Rightarrow> rat \<Rightarrow> double" where
  "signed s x = (if x = 0 then (if s then NegZero else Finite 0) else round_double x)"

text \<open>\<open>a * b\<close> on two floats.\<close>

definition fmul :: "double \<Rightarrow> double \<Rightarrow> double" where
  "fmul a b =
     (if a = NaN \<or> b = NaN then NaN
      else if is_inf a \<or> is_inf b then
        (if is_zero a \<or> is_zero b then NaN
         else if negative a \<noteq> negative b then NegInf else PosInf)
      else signed (negative a \<noteq> negative b) (magnitude a * magnitude b))"

text \<open>\<open>a / b\<close> on two floats: Python raises on a zero divisor before it divides.\<close>

definition fdiv :: "double \<Rightarrow> double \<Rightarrow> error + double" where
  "fdiv a b =
     (if is_zero b then Inl ZeroDivisionError
      else Inr
        (if a = NaN \<or> b = NaN then NaN
         else if is_inf a then
           (if is_inf b then NaN else if negative a \<noteq> negative b then NegInf else PosInf)
         else if is_inf b then (if negative a \<noteq> negative b then NegZero else Finite 0)
         else signed (negative a \<noteq> negative b) (magnitude a / magnitude b)))"

text \<open>The conversion of an \<open>int\<close> operand to \<open>float\<close>, which raises when the integer
  rounds to an infinity.\<close>

definition float_of_int :: "int \<Rightarrow> error + double" where
  "float_of_int i =
     (case round_double (of_int i) of
        PosInf \<Rightarrow> Inl OverflowError
      | NegInf \<Rightarrow> Inl OverflowError
      | a \<Rightarrow> Inr a)"

text \<open>\<open>a / b\<close> on two integers: the quotient, correctly rounded.\<close>

definition int_truediv :: "int \<Rightarrow> int \<Rightarrow> error + double" where
  "int_truediv a b =
     (if b = 0 then Inl ZeroDivisionError
      else
        (case signed ((a < 0) \<noteq> (b < 0)) (of_int a / of_int b) of
           PosInf \<Rightarrow> Inl OverflowError
         | NegInf \<Rightarrow> Inl OverflowError
         | q \<Rightarrow> Inr q))"

text \<open>\<open>int(x)\<close> on a float truncates towards zero and raises on a NaN or an infinity.\<close>

definition py_int :: "double \<Rightarrow> error + int" where
  "py_int a =
     (case a of
        Finite r \<Rightarrow> Inr (if 0 \<le> r then \<lfloor>r\<rfloor> else \<lceil>r\<rceil>)
      | NegZero \<Rightarrow> Inr 0
      | PosInf \<Rightarrow> Inl OverflowError
      | NegInf \<Rightarrow> Inl OverflowError
      | NaN \<Rightarrow> Inl ValueError)"

text \<open>\<open>x > 0\<close> and \<open>x <= 0\<close> on a float.\<close>

definition gt_zero :: "double \<Rightarrow> bool" where
  "gt_zero a \<longleftrightarrow> (case a of Finite r \<Rightarrow> 0 < r | PosInf \<Rightarrow> True | _ \<Rightarrow> False)"

definition le_zero :: "double \<Rightarrow> bool" where
  "le_zero a \<longleftrightarrow> (case a of Finite r \<Rightarrow> r \<le> 0 | NegZero \<Rightarrow> True | NegInf \<Rightarrow> True | _ \<Rightarrow> False)"

text \<open>A number that a caller may pass where a float is expected.\<close>

datatype number = PyInt int | PyFloat double

text \<open>The float literals of the callers: \<open>0.1\<close>, \<open>0.5\<close> and \<open>0.9\<close>.\<close>

definition float_0_1 :: double where
  "float_0_1 = Finite (3602879701896397 / 36028797018963968)"

definition float_0_5 :: double where
  "float_0_5 = Finite (1 / 2)"

definition float_0_9 :: double where
  "float_0_9 = Finite (8106479329266893 / 9007199254740992)"

text \<open>A statement that runs only if the one before it did not raise.\<close>

definition and_then :: "error + 'a \<Rightarrow> ('a \<Rightarrow> error + 'b) \<Rightarrow> error + 'b" where
  "and_then r f = (case r of Inl e \<Rightarrow> Inl e | Inr v \<Rightarrow> f v)"

text \<open>An \<open>int\<close> argument of a Qt signal is carried as a C \<open>int\<close> of 32 bits: a Python
  integer out of its range arrives reduced modulo \<open>2 ^ 32\<close>.\<close>

definition c_int :: "int \<Rightarrow> int" where
  "c_int n = (n + 2147483648) mod 4294967296 - 2147483648"

section \<open>utils/video\_utils.py: the world the module reads\<close>

text \<open>
  The module reads the file system through \<open>os.path\<close> and decodes media through OpenCV.
  Both are inputs of the model. A path exists iff the file system maps it to a
  \<open>file_info\<close>; per file and per backend a capture either raises, does not open, or
  opens with the properties that \<open>cap.get\<close> reports and the frame that \<open>cap.read\<close>
  delivers after a seek. Width, height and frame count are kept as the integers that
  \<open>int(cap.get(...))\<close> yields, the frame rate as the float that \<open>cap.get\<close> returns.
\<close>

datatype backend = CAP_ANY | CAP_FFMPEG

datatype seek = CAP_PROP_POS_MSEC rat | CAP_PROP_POS_FRAMES int

text \<open>The outcome of \<open>cap.read()\<close>: an exception, \<open>ret\<close> false or no frame, or a frame
  of the given height and width (\<open>frame.shape\<close>).\<close>

datatype frame_read = ReadRaises | NoFrame | Frame nat nat

record video_props =
  FRAME_WIDTH :: int
  FRAME_HEIGHT :: int
  FPS :: double
  FRAME_COUNT :: int
  read_at :: "seek \<Rightarrow> frame_read"

datatype capture = OpenRaises | NotOpened | Opened video_props

record file_info =
  getsize :: int
  getmtime :: string
  getctime :: string
  VideoCapture :: "backend \<Rightarrow> capture"

type_synonym filesystem = "string \<rightharpoonup> file_info"

section \<open>Qt values\<close>

record QSize =
  width :: int
  height :: int

datatype colour = darkGray

text \<open>
  Pixmaps are kept as the Qt calls that build them: \<open>QPixmap(size)\<close> followed by
  \<open>fill\<close>, \<open>QPixmap.fromImage\<close> of an RGB image of a given width and height, and
  \<open>pixmap.scaled(size, KeepAspectRatio, SmoothTransformation)\<close>.
\<close>

datatype QPixmap =
    Filled QSize colour
  | FromImage int int
  | Scaled QPixmap QSize

text \<open>Qt's \<open>QSize::scaled\<close> for \<open>Qt.KeepAspectRatio\<close>, on integers.\<close>

definition QSize_scaled :: "int \<times> int \<Rightarrow> QSize \<Rightarrow> int \<times> int" where
  "QSize_scaled wh s =
     (let wd = fst wh; ht = snd wh in
      if wd = 0 \<or> ht = 0 then (width s, height s)
      else
        let rw = height s * wd div ht in
        if rw \<le> width s then (rw, height s)
        else (width s, width s * ht div wd))"

text \<open>\<open>(pixmap.width(), pixmap.height())\<close>. Qt builds the null pixmap, of width and
  height 0, from a size that is not positive in both directions.\<close>

fun pixmap_size :: "QPixmap \<Rightarrow> int \<times> int" where
  "pixmap_size (Filled s c) =
     (if 0 < width s \<and> 0 < height s then (width s, height s) else (0, 0))"
| "pixmap_size (FromImage w h) = (if 0 < w \<and> 0 < h then (w, h) else (0, 0))"
| "pixmap_size (Scaled p s) =
     (if pixmap_size p = (0, 0) \<or> width s \<le> 0 \<or> height s \<le> 0 then (0, 0)
      else QSize_scaled (pixmap_size p) s)"

section \<open>Module state\<close>

text \<open>
  A Python dict is an association list with distinct keys in insertion order:
  \<open>k in d\<close> is \<open>map_of d k \<noteq> None\<close>, \<open>d[k] = v\<close> is \<open>AList.update k v d\<close>,
  \<open>len(d)\<close> is \<open>length d\<close> and \<open>d.clear()\<close> yields \<open>[]\<close>.
\<close>

record metadata =
  md_width :: int
  md_height :: int
  md_fps :: double
  md_duration :: double
  md_size :: int
  md_date_modified :: string
  md_date_created :: string

text \<open>
  The thumbnail cache key \<open>f"{file_path}_{position}_{size.width()}x{size.height()}"\<close>
  is kept as the tuple of the four values it is formatted from. The position is
  formatted by \<open>str\<close>, which tells an \<open>int\<close> from a \<open>float\<close> (\<open>0\<close> and \<open>0.0\<close>) and one
  float from every other (\<open>float(repr(x)) == x\<close>, \<open>-0.0\<close> apart from \<open>0.0\<close>), so two
  positions share a formatted key iff they are the same \<open>number\<close>.
\<close>

type_synonym cache_key = "string \<times> number \<times> int \<times> int"

record module_state =
  metadata_cache :: "(string \<times> metadata) list"
  thumbnail_cache :: "(cache_key \<times> QPixmap) list"
  lru_cache :: "(string \<times> metadata option) list"

definition CACHE_SIZE_LIMIT :: nat where
  "CACHE_SIZE_LIMIT = 100"

definition initial_state :: module_state where
  "initial_state = \<lparr>metadata_cache = [], thumbnail_cache = [], lru_cache = []\<rparr>"

text \<open>
  The two statements that end a successful computation in both functions,
  \<^verbatim>\<open>if len(cache) >= _CACHE_SIZE_LIMIT: cache.clear()\<close> and then \<^verbatim>\<open>cache[key] = value\<close>,
  when no other thread touches the dict in between.
\<close>

definition cache_store :: "('k \<times> 'v) list \<Rightarrow> 'k \<Rightarrow> 'v \<Rightarrow> ('k \<times> 'v) list" where
  "cache_store cache k v =
     AList.update k v (if length cache \<ge> CACHE_SIZE_LIMIT then [] else cache)"

section \<open>get\_video\_metadata\<close>

text \<open>\<open>frame_count / fps if fps > 0 else 0\<close>.\<close>

definition duration_of :: "int \<Rightarrow> double \<Rightarrow> error + double" where
  "duration_of frame_count fps =
     (if gt_zero fps then and_then (float_of_int frame_count) (\<lambda>n. fdiv n fps)
      else Inr (Finite 0))"

text \<open>The statements of the \<open>try\<close> block after a capture has opened.\<close>

definition read_metadata :: "file_info \<Rightarrow> video_props \<Rightarrow> error + metadata" where
  "read_metadata f cap =
     (let w = FRAME_WIDTH cap;
          h = FRAME_HEIGHT cap;
          fps = FPS cap;
          frame_count = FRAME_COUNT cap
      in and_then (duration_of frame_count fps) (\<lambda>d.
           let fix = ((w \<le> 0 \<or> h \<le> 0 \<or> le_zero d) \<and> getsize f > 0);
               w' = (if fix then (if w > 0 then w else 1280) else w);
               h' = (if fix then (if h > 0 then h else 720) else h);
               d' = (if fix then (if gt_zero d then d else Finite 60) else d)
           in Inr \<lparr>md_width = w', md_height = h', md_fps = fps, md_duration = d',
                   md_size = getsize f, md_date_modified = getmtime f,
                   md_date_created = getctime f\<rparr>))"

text \<open>The \<open>try\<close> block up to the computed result: \<open>Inl\<close> is a raised exception,
  \<open>Inr None\<close> the early \<open>return None\<close> after both backends failed to open.\<close>

definition probe :: "file_info \<Rightarrow> error + metadata option" where
  "probe f =
     (case VideoCapture f CAP_ANY of
        OpenRaises \<Rightarrow> Inl CvError
      | Opened cap \<Rightarrow> and_then (read_metadata f cap) (\<lambda>result. Inr (Some result))
      | NotOpened \<Rightarrow>
          (case VideoCapture f CAP_FFMPEG of
             OpenRaises \<Rightarrow> Inl CvError
           | NotOpened \<Rightarrow> Inr None
           | Opened cap \<Rightarrow> and_then (read_metadata f cap) (\<lambda>result. Inr (Some result))))"

text \<open>The record built in the \<open>except\<close> handler.\<close>

definition fallback_metadata :: "file_info \<Rightarrow> metadata" where
  "fallback_metadata f =
     \<lparr>md_width = 1280, md_height = 720, md_fps = Finite 30, md_duration = Finite 60,
      md_size = getsize f, md_date_modified = getmtime f,
      md_date_created = getctime f\<rparr>"

text \<open>The function body, without its decorator.\<close>

definition get_video_metadata_wrapped ::
  "filesystem \<Rightarrow> string \<Rightarrow> module_state \<Rightarrow> metadata option \<times> module_state" where
  "get_video_metadata_wrapped fs file_path st =
     (case fs file_path of
        None \<Rightarrow> (None, st)
      | Some f \<Rightarrow>
          (case map_of (metadata_cache st) file_path of
             Some cached \<Rightarrow> (Some cached, st)
           | None \<Rightarrow>
               (case probe f of
                  Inl e \<Rightarrow> (Some (fallback_metadata f), st)
                | Inr None \<Rightarrow> (None, st)
                | Inr (Some result) \<Rightarrow>
                    (Some result,
                     st\<lparr>metadata_cache :=
                          cache_store (metadata_cache st) file_path result\<rparr>))))"

text \<open>
  \<^verbatim>\<open>@functools.lru_cache(maxsize=100)\<close>: results are memoised by argument, the most
  recently used first; a hit returns the stored result without running the body, a
  miss runs the body, stores its result and drops the least recently used entry beyond
  100.
\<close>

definition lru_maxsize :: nat where
  "lru_maxsize = 100"

definition get_video_metadata ::
  "filesystem \<Rightarrow> string \<Rightarrow> module_state \<Rightarrow> metadata option \<times> module_state" where
  "get_video_metadata fs file_path st =
     (case map_of (lru_cache st) file_path of
        Some r \<Rightarrow>
          (r, st\<lparr>lru_cache := (file_path, r) # AList.delete file_path (lru_cache st)\<rparr>)
      | None \<Rightarrow>
          (let (r, st') = get_video_metadata_wrapped fs file_path st
           in (r, st'\<lparr>lru_cache := take lru_maxsize ((file_path, r) # lru_cache st')\<rparr>)))"

section \<open>extract\_thumbnail\<close>

definition cache_key :: "string \<Rightarrow> number \<Rightarrow> QSize \<Rightarrow> cache_key" where
  "cache_key file_path position tsize = (file_path, position, width tsize, height tsize)"

text \<open>The pixmap built at each of the three failure exits.\<close>

definition placeholder :: "QSize \<Rightarrow> QPixmap" where
  "placeholder tsize = Filled tsize darkGray"

text \<open>\<open>int(total_frames * position)\<close>: the product of two integers is exact, the
  product with a float is the rounded product of two floats.\<close>

definition target_frame :: "int \<Rightarrow> number \<Rightarrow> error + int" where
  "target_frame total_frames position =
     (case position of
        PyInt k \<Rightarrow> Inr (total_frames * k)
      | PyFloat x \<Rightarrow>
          and_then (float_of_int total_frames) (\<lambda>n. py_int (fmul n x)))"

text \<open>The seek issued before \<open>cap.read()\<close>; the milliseconds are \<open>seek_pos * 1000\<close>.\<close>

definition seek_target :: "file_info \<Rightarrow> video_props \<Rightarrow> number \<Rightarrow> error + seek" where
  "seek_target f cap position =
     (let total_frames = FRAME_COUNT cap in
      if total_frames \<le> 0 then
        (let seek_pos = (if getsize f > 10000000 then 5 else 1)
         in Inr (CAP_PROP_POS_MSEC (seek_pos * 1000)))
      else
        and_then (target_frame total_frames position) (\<lambda>n.
          Inr (CAP_PROP_POS_FRAMES (if n \<le> 0 then 1 else n))))"

text \<open>The size that the frame is resized to, as \<open>(new_width, new_height)\<close>.\<close>

definition new_size :: "nat \<Rightarrow> nat \<Rightarrow> QSize \<Rightarrow> error + int \<times> int" where
  "new_size h w tsize =
     and_then (int_truediv (int w) (int h)) (\<lambda>aspect_ratio.
       if w > h then
         and_then (float_of_int (width tsize)) (\<lambda>new_width.
         and_then (fdiv new_width aspect_ratio) (\<lambda>q.
         and_then (py_int q) (\<lambda>new_height. Inr (width tsize, new_height))))
       else
         and_then (float_of_int (height tsize)) (\<lambda>new_height.
         and_then (py_int (fmul new_height aspect_ratio)) (\<lambda>new_width.
           Inr (new_width, height tsize))))"

text \<open>From the decoded frame to the pixmap: \<open>cv2.resize\<close> raises on an empty
  destination size.\<close>

definition frame_to_pixmap :: "nat \<Rightarrow> nat \<Rightarrow> QSize \<Rightarrow> error + QPixmap" where
  "frame_to_pixmap h w tsize =
     and_then (new_size h w tsize) (\<lambda>(new_width, new_height).
       if new_width \<le> 0 \<or> new_height \<le> 0 then Inl CvError
       else
         let pixmap = FromImage new_width new_height
         in Inr (if fst (pixmap_size pixmap) \<noteq> width tsize
                    \<or> snd (pixmap_size pixmap) \<noteq> height tsize
                 then Scaled pixmap tsize else pixmap))"

text \<open>The \<open>try\<close> block: \<open>Inl\<close> is a raised exception, \<open>Inr (pixmap, False)\<close> one of the
  two placeholder returns, \<open>Inr (pixmap, True)\<close> the computed thumbnail that is then
  stored in the cache.\<close>

definition try_extract :: "file_info \<Rightarrow> number \<Rightarrow> QSize \<Rightarrow> error + (QPixmap \<times> bool)" where
  "try_extract f position tsize =
     (case VideoCapture f CAP_FFMPEG of
        OpenRaises \<Rightarrow> Inl CvError
      | NotOpened \<Rightarrow> Inr (placeholder tsize, False)
      | Opened cap \<Rightarrow>
          and_then (seek_target f cap position) (\<lambda>target.
            case read_at cap target of
              ReadRaises \<Rightarrow> Inl CvError
            | NoFrame \<Rightarrow> Inr (placeholder tsize, False)
            | Frame h w \<Rightarrow>
                and_then (frame_to_pixmap h w tsize) (\<lambda>pixmap. Inr (pixmap, True))))"

definition extract_thumbnail ::
  "filesystem \<Rightarrow> string \<Rightarrow> number \<Rightarrow> QSize \<Rightarrow> module_state
     \<Rightarrow> QPixmap option \<times> module_state"
  where
  "extract_thumbnail fs file_path position tsize st =
     (case fs file_path of
        None \<Rightarrow> (None, st)
      | Some f \<Rightarrow>
          (let key = cache_key file_path position tsize in
           case map_of (thumbnail_cache st) key of
             Some cached \<Rightarrow> (Some cached, st)
           | None \<Rightarrow>
               (case try_extract f position tsize of
                  Inl e \<Rightarrow> (Some (placeholder tsize), st)
                | Inr (pixmap, False) \<Rightarrow> (Some pixmap, st)
                | Inr (pixmap, True) \<Rightarrow>
                    (Some pixmap,
                     st\<lparr>thumbnail_cache :=
                          cache_store (thumbnail_cache st) key pixmap\<rparr>))))"

definition clear_caches :: "module_state \<Rightarrow> module_state" where
  "clear_caches st = st\<lparr>metadata_cache := [], thumbnail_cache := []\<rparr>"

section \<open>The stores of concurrent calls\<close>

text \<open>
  \<open>extract_thumbnail\<close> runs on the four threads of the pool and on the thread of the
  user interface, \<open>get_video_metadata\<close> on the loader threads, of which an old one may
  still run beside a new one, and no lock guards the dicts. A call that has computed its
  value is about to run three statements on the dict: the test
  \<open>len(cache) >= _CACHE_SIZE_LIMIT\<close>, the \<open>cache.clear()\<close> if the test held, and the
  store \<open>cache[key] = value\<close>. Each statement is atomic under the interpreter lock, and
  other threads may run between any two of them.
\<close>

datatype ('k, 'v) storing = AtTest 'k 'v | AtClear 'k 'v | AtStore 'k 'v

text \<open>One statement of a call: the place it reaches, if it has not returned, and the
  dict it leaves.\<close>

fun advance ::
  "('k, 'v) storing \<Rightarrow> ('k \<times> 'v) list \<Rightarrow> ('k, 'v) storing option \<times> ('k \<times> 'v) list" where
  "advance (AtTest k v) cache =
     (Some (if length cache \<ge> CACHE_SIZE_LIMIT then AtClear k v else AtStore k v), cache)"
| "advance (AtClear k v) cache = (Some (AtStore k v), [])"
| "advance (AtStore k v) cache = (None, AList.update k v cache)"

text \<open>A call that runs its three statements without another thread in between.\<close>

definition alone :: "('k, 'v) storing \<Rightarrow> ('k \<times> 'v) list \<Rightarrow> ('k \<times> 'v) list" where
  "alone c cache =
     (case advance c cache of
        (None, cache1) \<Rightarrow> cache1
      | (Some c1, cache1) \<Rightarrow>
          (case advance c1 cache1 of
             (None, cache2) \<Rightarrow> cache2
           | (Some c2, cache2) \<Rightarrow> snd (advance c2 cache2)))"

text \<open>
  The dict and the calls that are between their test and their store. A move lets a
  further call with a computed value arrive at its test, unless \<open>threads\<close> calls are
  under way already, lets the call at an index run its next statement, or is the
  \<open>clear()\<close> of \<open>clear_caches\<close>.
\<close>

record ('k, 'v) shared =
  dict :: "('k \<times> 'v) list"
  calls :: "('k, 'v) storing list"

datatype ('k, 'v) move = Arrive 'k 'v | Advance nat | ClearAll

fun store_step :: "nat \<Rightarrow> ('k, 'v) move \<Rightarrow> ('k, 'v) shared \<Rightarrow> ('k, 'v) shared" where
  "store_step threads (Arrive k v) s =
     (if length (calls s) < threads then s\<lparr>calls := calls s @ [AtTest k v]\<rparr> else s)"
| "store_step threads (Advance j) s =
     (if j < length (calls s) then
        (case advance (calls s ! j) (dict s) of
           (None, cache) \<Rightarrow>
             s\<lparr>dict := cache, calls := take j (calls s) @ drop (Suc j) (calls s)\<rparr>
         | (Some c, cache) \<Rightarrow> s\<lparr>dict := cache, calls := (calls s)[j := c]\<rparr>)
      else s)"
| "store_step threads ClearAll s = s\<lparr>dict := []\<rparr>"

fun store_run :: "nat \<Rightarrow> ('k, 'v) move list \<Rightarrow> ('k, 'v) shared \<Rightarrow> ('k, 'v) shared" where
  "store_run threads [] s = s"
| "store_run threads (m # ms) s = store_run threads ms (store_step threads m s)"

text \<open>The calls whose next statement is the store.\<close>

definition about_to_store :: "('k, 'v) storing list \<Rightarrow> nat" where
  "about_to_store cs =
     length (filter (\<lambda>c. case c of AtStore k v \<Rightarrow> True | _ \<Rightarrow> False) cs)"

text \<open>
  With calls that overlap: the entries of the dict and the calls that are about to
  store are never more than 99 and the number of threads together.
\<close>

definition store_inv :: "nat \<Rightarrow> ('k, 'v) shared \<Rightarrow> bool" where
  "store_inv threads s \<longleftrightarrow>
     length (calls s) \<le> threads
     \<and> length (dict s) + about_to_store (calls s) \<le> 99 + threads"

section \<open>is\_video\_file\<close>

text \<open>
  \<open>os.path\<close> is taken as \<open>posixpath\<close>: the separator is \<open>/\<close>, the extension
  separator is \<open>.\<close>. \<open>str.rfind\<close> returns the last index of a character, or -1.
  A string is the list of the bytes of its UTF-8 encoding, so the characters of ASCII
  are the bytes below 128, and neither \<open>/\<close> nor \<open>.\<close> occurs inside the encoding of
  another character.
\<close>

fun rfind :: "string \<Rightarrow> char \<Rightarrow> int" where
  "rfind [] c = - 1"
| "rfind (x # xs) c =
     (let r = rfind xs c in
      if 0 \<le> r then r + 1 else if x = c then 0 else - 1)"

text \<open>
  \<open>os.path.splitext\<close>: the extension starts at the last dot of the last path component,
  unless only dots precede it in that component.
\<close>

definition splitext :: "string \<Rightarrow> string \<times> string" where
  "splitext p =
     (let sepIndex = rfind p CHR ''/'';
          dotIndex = rfind p CHR ''.''
      in if dotIndex > sepIndex
            \<and> list_ex (\<lambda>c. c \<noteq> CHR ''.'')
                 (take (nat (dotIndex - (sepIndex + 1))) (drop (nat (sepIndex + 1)) p))
         then (take (nat dotIndex) p, drop (nat dotIndex) p)
         else (p, []))"

text \<open>\<open>os.path.join\<close> of two components.\<close>

definition join :: "string \<Rightarrow> string \<Rightarrow> string" where
  "join a b =
     (if b \<noteq> [] \<and> hd b = CHR ''/'' then b
      else if a = [] \<or> last a = CHR ''/'' then a @ b
      else a @ ''/'' @ b)"

text \<open>
  \<open>str.lower\<close>. On a string of ASCII characters it maps the letters \<open>A\<close> to \<open>Z\<close> to
  \<open>a\<close> to \<open>z\<close> and keeps every other character. On any other string it follows the
  case mapping of the Unicode database, which is a parameter of the model.
\<close>

definition lower_char :: "char \<Rightarrow> char" where
  "lower_char c =
     (let n = (of_char c :: nat) in if 65 \<le> n \<and> n \<le> 90 then char_of (n + 32) else c)"

definition is_ascii :: "string \<Rightarrow> bool" where
  "is_ascii s \<longleftrightarrow> list_all (\<lambda>c. (of_char c :: nat) < 128) s"

definition lower :: "(string \<Rightarrow> string) \<Rightarrow> string \<Rightarrow> string" where
  "lower unicode_lower s = (if is_ascii s then map lower_char s else unicode_lower s)"

definition SUPPORTED_VIDEO_EXTENSIONS :: "string list" where
  "SUPPORTED_VIDEO_EXTENSIONS =
     [''.mp4'', ''.mkv'', ''.avi'', ''.mov'', ''.wmv'', ''.flv'', ''.webm'', ''.m4v'',
      ''.mpeg'', ''.mpg'', ''.3gp'', ''.3g2'']"

definition is_video_file :: "(string \<Rightarrow> string) \<Rightarrow> string \<Rightarrow> bool" where
  "is_video_file unicode_lower file_path =
     (let ext = snd (splitext file_path)
      in lower unicode_lower ext \<in> set SUPPORTED_VIDEO_EXTENSIONS)"

text \<open>The list comprehension of \<open>load_videos_in_folder\<close> over the directory listing.\<close>

definition video_files :: "(string \<Rightarrow> string) \<Rightarrow> string \<Rightarrow> string list \<Rightarrow> string list" where
  "video_files unicode_lower folder_path files =
     [f \<leftarrow> files. is_video_file unicode_lower (join folder_path f)]"

text \<open>
  Two strings of equal length that agree up to the case of ASCII letters: at every
  index the characters are equal, or the first is an upper case letter and the second
  the lower case letter that belongs to it.
\<close>

definition same_letter :: "char \<Rightarrow> char \<Rightarrow> bool" where
  "same_letter c d \<longleftrightarrow>
     c = d
     \<or> (65 \<le> (of_char c :: nat) \<and> (of_char c :: nat) \<le> 90
        \<and> (of_char d :: nat) = of_char c + 32)"

definition spelling_of :: "string \<Rightarrow> string \<Rightarrow> bool" where
  "spelling_of s e \<longleftrightarrow> list_all2 same_letter s e"

text \<open>The case mapping of the Unicode database on one extension: the Kelvin sign
  U+212A, encoded as the bytes E2 84 AA, is lowered to the letter \<open>k\<close>.\<close>

definition kelvin_ext :: string where
  "kelvin_ext = ''.m'' @ [char_of (226 :: nat), char_of (132 :: nat), char_of (170 :: nat)] @ ''v''"

definition kelvin_lower :: "string \<Rightarrow> string" where
  "kelvin_lower s = (if s = kelvin_ext then ''.mkv'' else s)"

section \<open>db/database.py\<close>

text \<open>
  The column \<open>duration\<close> keeps the value of the float that \<open>add_video\<close> binds to it:
  SQLite stores a float that equals an integer as that integer and any other float as
  it is, and what is read back goes to the float argument of the video signal, which
  converts an integer back to the float.
\<close>

record video_row =
  id_col :: int
  file_path :: string
  file_name :: string
  folder_path :: string
  size_col :: int
  duration :: double
  watched :: int
  last_watched :: "string option"
  last_position :: int
  date_added :: string
  date_modified :: string

text \<open>
  The tables the ingestion touches. \<open>sqlite_sequence\<close> is the largest row id that
  \<open>AUTOINCREMENT\<close> has handed out for \<open>videos\<close>.
\<close>

record database =
  videos :: "video_row list"
  sqlite_sequence :: int
  tags :: "(int \<times> string) list"
  video_tags :: "(int \<times> int) list"

definition init_db :: database where
  "init_db = \<lparr>videos = [], sqlite_sequence = 0, tags = [], video_tags = []\<rparr>"

text \<open>
  \<^verbatim>\<open>INSERT OR REPLACE INTO videos (file_path, file_name, folder_path, size, duration,
  date_added, date_modified)\<close>: the row id is one more than the largest id ever used, the
  rows that conflict on the \<open>UNIQUE\<close> column \<open>file_path\<close> are deleted, and the columns
  that are not listed take their defaults. Returns \<open>cursor.lastrowid\<close>.
\<close>

definition add_video ::
  "database \<Rightarrow> string \<Rightarrow> string \<Rightarrow> string \<Rightarrow> int \<Rightarrow> double \<Rightarrow> string \<Rightarrow> string
     \<Rightarrow> int \<times> database" where
  "add_video d path name folder sz dur added modified =
     (let video_id = fold max (map id_col (videos d)) (sqlite_sequence d) + 1;
          row = \<lparr>id_col = video_id, file_path = path, file_name = name,
                 folder_path = folder, size_col = sz, duration = dur, watched = 0,
                 last_watched = None, last_position = 0, date_added = added,
                 date_modified = modified\<rparr>
      in (video_id,
          d\<lparr>videos := [r \<leftarrow> videos d. file_path r \<noteq> path] @ [row],
            sqlite_sequence := video_id\<rparr>))"

text \<open>\<^verbatim>\<open>SELECT * FROM videos WHERE file_path = ?\<close> and \<open>fetchone\<close>.\<close>

definition get_video_by_path :: "database \<Rightarrow> string \<Rightarrow> video_row option" where
  "get_video_by_path d path = find (\<lambda>r. file_path r = path) (videos d)"

text \<open>The join of \<open>tags\<close> with \<open>video_tags\<close> for one video: pairs of tag id and name.\<close>

definition get_video_tags :: "database \<Rightarrow> int \<Rightarrow> (int \<times> string) list" where
  "get_video_tags d video_id = [t \<leftarrow> tags d. (video_id, fst t) \<in> set (video_tags d)]"

definition update_watched_status ::
  "database \<Rightarrow> int \<Rightarrow> bool \<Rightarrow> int \<Rightarrow> string option \<Rightarrow> database" where
  "update_watched_status d video_id w pos when =
     d\<lparr>videos :=
         map (\<lambda>r. if id_col r = video_id
                   then r\<lparr>watched := (if w then 1 else 0), last_position := pos,
                          last_watched := when\<rparr>
                   else r)
             (videos d)\<rparr>"

section \<open>ui/main\_window.py: the ingestion\<close>

text \<open>
  The three signals of \<open>MainWindow\<close>, with the arguments that arrive:
  \<open>pyqtSignal(str, str, object, int, float, bool, list)\<close>, \<open>pyqtSignal(str, object)\<close> and
  \<open>pyqtSignal(int, int)\<close>.
\<close>

datatype event =
    video_loaded string string "QPixmap option" int double bool "string list"
  | thumbnail_loaded string "QPixmap option"
  | load_progress int int

text \<open>
  The body of the \<open>for\<close> loop between the cancellation check and the progress signal,
  for one file name: the new catalogue and module state, the signals emitted, and the
  paths handed to \<open>extract_thumbnail_async\<close>.
\<close>

definition process_file ::
  "filesystem \<Rightarrow> string \<Rightarrow> string \<Rightarrow> database \<times> module_state
     \<Rightarrow> (database \<times> module_state) \<times> event list \<times> string list" where
  "process_file fs folder file d_st =
     (let d = fst d_st; st = snd d_st; path = join folder file in
      case get_video_by_path d path of
        None \<Rightarrow>
          (case get_video_metadata fs path st of
             (None, st') \<Rightarrow> ((d, st'), [], [])
           | (Some md, st') \<Rightarrow>
               (let (video_id, d') =
                      add_video d path file folder (md_size md) (md_duration md)
                        (md_date_created md) (md_date_modified md)
                in ((d', st'),
                    [video_loaded path file None (c_int (md_size md)) (md_duration md)
                       False []],
                    [path])))
      | Some video_data \<Rightarrow>
          (let tag_names = map snd (get_video_tags d (id_col video_data))
           in ((d, st),
               [video_loaded path file None (c_int (size_col video_data))
                  (duration video_data) (watched video_data \<noteq> 0) tag_names],
               [path])))"

text \<open>
  One ingestion request runs on three kinds of threads: the loader thread executes
  \<open>_load_videos_async\<close>, the workers of the pool execute the submitted thumbnail
  extractions, and the thread of the user interface sets \<open>_loading_canceled\<close> when the
  next request arrives, waits for the loader for at most a second, and resets the flag,
  whether the loader has ended or not. The loader is at one of six places: before the
  first progress signal, at the head of the loop with index \<open>i\<close>, before the progress
  signal of file \<open>i\<close>, behind the loop, at its end, or in the \<open>except\<close> handler, which is
  an end as well. The place behind the loop remembers the index at which the loop was
  left; the end remembers it too, and whether the final signal was emitted. The steps of
  the loader are taken as one piece each; a worker that moves in between touches only
  the thumbnail cache and appends its own signal, so no trace is lost.

  Any statement of the loop may raise (the catalogue, the emission of a signal, the
  submission to the pool), and so may the callback of a worker. A loader step that
  raises leaves the effects of the statements before the one that raised: of the file
  in work, in order, the probe of the metadata, the insertion into the catalogue, and
  the video signal; the submission of the extraction comes last and is lost in every
  case. A worker that raises leaves the effect of the extraction and emits nothing.
\<close>

datatype pc =
    AtStart | AtLoop nat | AtProgress nat | AfterLoop nat | Finished nat bool | Failed

record system =
  db :: database
  module :: module_state
  loading_canceled :: bool
  loader :: pc
  thread_pool :: "string list"
  signals :: "event list"

definition start :: "database \<Rightarrow> module_state \<Rightarrow> system" where
  "start d st =
     \<lparr>db = d, module = st, loading_canceled = False, loader = AtStart,
      thread_pool = [], signals = []\<rparr>"

definition loader_step :: "filesystem \<Rightarrow> string \<Rightarrow> string list \<Rightarrow> system \<Rightarrow> system" where
  "loader_step fs folder files s =
     (let total_files = int (length files) in
      case loader s of
        AtStart \<Rightarrow>
          s\<lparr>signals := signals s @ [load_progress (c_int 0) (c_int total_files)],
            loader := AtLoop 0\<rparr>
      | AtLoop i \<Rightarrow>
          if i \<ge> length files \<or> loading_canceled s then s\<lparr>loader := AfterLoop i\<rparr>
          else
            (let ((d', st'), emitted, submitted) =
                   process_file fs folder (files ! i) (db s, module s)
             in s\<lparr>db := d', module := st', signals := signals s @ emitted,
                  thread_pool := thread_pool s @ submitted, loader := AtProgress i\<rparr>)
      | AtProgress i \<Rightarrow>
          s\<lparr>signals := signals s @ [load_progress (c_int (int i + 1)) (c_int total_files)],
            loader := AtLoop (i + 1)\<rparr>
      | AfterLoop i \<Rightarrow>
          if \<not> loading_canceled s
          then s\<lparr>signals := signals s @ [load_progress (c_int total_files) (c_int total_files)],
                 loader := Finished i True\<rparr>
          else s\<lparr>loader := Finished i False\<rparr>
      | Finished i final \<Rightarrow> s
      | Failed \<Rightarrow> s)"

text \<open>
  A loader step that raises, \<open>k\<close> being the number of effects of the file in work that
  precede the statement that raised.
\<close>

definition loader_raises ::
  "filesystem \<Rightarrow> string \<Rightarrow> string list \<Rightarrow> nat \<Rightarrow> system \<Rightarrow> system" where
  "loader_raises fs folder files k s =
     (case loader s of
        Finished i final \<Rightarrow> s
      | Failed \<Rightarrow> s
      | AtLoop i \<Rightarrow>
          if i \<ge> length files \<or> loading_canceled s then s\<lparr>loader := Failed\<rparr>
          else
            (let ((d', st'), emitted, submitted) =
                   process_file fs folder (files ! i) (db s, module s)
             in s\<lparr>module := (if 1 \<le> k then st' else module s),
                  db := (if 2 \<le> k then d' else db s),
                  signals := signals s @ (if 3 \<le> k then emitted else []),
                  loader := Failed\<rparr>)
      | _ \<Rightarrow> s\<lparr>loader := Failed\<rparr>)"

text \<open>
  A worker runs one submitted extraction, with the default position 0.1 and the default
  size 320 x 180, and calls back, which emits the thumbnail signal.
\<close>

definition worker_step :: "filesystem \<Rightarrow> nat \<Rightarrow> system \<Rightarrow> system" where
  "worker_step fs k s =
     (if k < length (thread_pool s) then
        (let path = thread_pool s ! k;
             (thumbnail, st') =
               extract_thumbnail fs path (PyFloat float_0_1) \<lparr>width = 320, height = 180\<rparr>
                 (module s)
         in s\<lparr>module := st',
              thread_pool := take k (thread_pool s) @ drop (Suc k) (thread_pool s),
              signals := signals s @ [thumbnail_loaded path thumbnail]\<rparr>)
      else s)"

definition worker_raises :: "filesystem \<Rightarrow> nat \<Rightarrow> system \<Rightarrow> system" where
  "worker_raises fs k s =
     (if k < length (thread_pool s) then
        (let path = thread_pool s ! k;
             (thumbnail, st') =
               extract_thumbnail fs path (PyFloat float_0_1) \<lparr>width = 320, height = 180\<rparr>
                 (module s)
         in s\<lparr>module := st',
              thread_pool := take k (thread_pool s) @ drop (Suc k) (thread_pool s)\<rparr>)
      else s)"

datatype choice =
    Loader | LoaderRaises nat | Worker nat | WorkerRaises nat | Cancel | Reset

fun step :: "string \<Rightarrow> string list \<Rightarrow> filesystem \<times> choice \<Rightarrow> system \<Rightarrow> system" where
  "step folder files (fs, Loader) s = loader_step fs folder files s"
| "step folder files (fs, LoaderRaises k) s = loader_raises fs folder files k s"
| "step folder files (fs, Worker k) s = worker_step fs k s"
| "step folder files (fs, WorkerRaises k) s = worker_raises fs k s"
| "step folder files (fs, Cancel) s = s\<lparr>loading_canceled := True\<rparr>"
| "step folder files (fs, Reset) s = s\<lparr>loading_canceled := False\<rparr>"

text \<open>A schedule fixes which thread moves next and what the file system holds then.\<close>

fun run :: "string \<Rightarrow> string list \<Rightarrow> (filesystem \<times> choice) list \<Rightarrow> system \<Rightarrow> system" where
  "run folder files [] s = s"
| "run folder files (c # cs) s = run folder files cs (step folder files c s)"

text \<open>The progress signals of a trace, in order.\<close>

fun progress :: "event list \<Rightarrow> (int \<times> int) list" where
  "progress [] = []"
| "progress (load_progress a b # es) = (a, b) # progress es"
| "progress (e # es) = progress es"

fun is_video_loaded :: "string \<Rightarrow> event \<Rightarrow> bool" where
  "is_video_loaded p (video_loaded q name thumbnail sz dur w ts) = (p = q)"
| "is_video_loaded p e = False"

text \<open>Every thumbnail signal of a trace has a video signal for the same path strictly
  before it.\<close>

definition thumbnails_preceded :: "event list \<Rightarrow> bool" where
  "thumbnails_preceded tr \<longleftrightarrow>
     (\<forall>j<length tr. case tr ! j of
         thumbnail_loaded p t \<Rightarrow> list_ex (is_video_loaded p) (take j tr)
       | _ \<Rightarrow> True)"

text \<open>Every extraction waiting in the pool belongs to a path whose video signal has
  been emitted.\<close>

definition pending_announced :: "system \<Rightarrow> bool" where
  "pending_announced s \<longleftrightarrow>
     (\<forall>p\<in>set (thread_pool s). list_ex (is_video_loaded p) (signals s))"

text \<open>
  The progress signals of a request over \<open>n\<close> files of which \<open>k\<close> have been processed:
  the initial one, one per processed file in order, and the final one if it was emitted.
\<close>

definition progress_sequence :: "nat \<Rightarrow> nat \<Rightarrow> bool \<Rightarrow> (int \<times> int) list" where
  "progress_sequence n k final =
     (0, int n) # map (\<lambda>i. (int i + 1, int n)) [0..<k]
       @ (if final then [(int n, int n)] else [])"

text \<open>What the loader has emitted at each of its places.\<close>

definition progress_inv :: "nat \<Rightarrow> system \<Rightarrow> bool" where
  "progress_inv n s \<longleftrightarrow>
     (case loader s of
        AtStart \<Rightarrow> progress (signals s) = []
      | AtLoop i \<Rightarrow> i \<le> n \<and> progress (signals s) = progress_sequence n i False
      | AtProgress i \<Rightarrow> i < n \<and> progress (signals s) = progress_sequence n i False
      | AfterLoop i \<Rightarrow> i \<le> n \<and> progress (signals s) = progress_sequence n i False
      | Finished i final \<Rightarrow> i \<le> n \<and> progress (signals s) = progress_sequence n i final
      | Failed \<Rightarrow>
          progress (signals s) = []
          \<or> (\<exists>k\<le>n. progress (signals s) = progress_sequence n k False))"

text \<open>
  A schedule in which nobody cancels and the loader does not raise, the number of
  steps it gives to the loader, and the number of steps that the loader of an
  uncancelled request over \<open>n\<close> files still needs, at each of its places, to end with
  the final signal.
\<close>

definition undisturbed :: "(filesystem \<times> choice) list \<Rightarrow> bool" where
  "undisturbed sched \<longleftrightarrow>
     list_all (\<lambda>c. case snd c of Cancel \<Rightarrow> False | LoaderRaises k \<Rightarrow> False | _ \<Rightarrow> True)
       sched"

definition loader_steps :: "(filesystem \<times> choice) list \<Rightarrow> nat" where
  "loader_steps sched = length (filter (\<lambda>c. snd c = Loader) sched)"

fun remaining :: "nat \<Rightarrow> pc \<Rightarrow> nat option" where
  "remaining n AtStart = Some (2 * n + 3)"
| "remaining n (AtLoop i) = (if i \<le> n then Some (2 * (n - i) + 2) else None)"
| "remaining n (AtProgress i) = (if i < n then Some (2 * (n - i) + 1) else None)"
| "remaining n (AfterLoop i) = (if i = n then Some 1 else None)"
| "remaining n (Finished i final) = (if i = n \<and> final then Some 0 else None)"
| "remaining n Failed = None"

section \<open>Calls in sequence, and example inputs\<close>

datatype call =
    GetVideoMetadata string
  | ExtractThumbnail string number QSize
  | ClearCaches

fun perform :: "filesystem \<times> call \<Rightarrow> module_state \<Rightarrow> module_state" where
  "perform (fs, GetVideoMetadata path) st = snd (get_video_metadata fs path st)"
| "perform (fs, ExtractThumbnail path position tsize) st =
     snd (extract_thumbnail fs path position tsize st)"
| "perform (fs, ClearCaches) st = clear_caches st"

fun run_calls :: "(filesystem \<times> call) list \<Rightarrow> module_state \<Rightarrow> module_state" where
  "run_calls [] st = st"
| "run_calls (c # cs) st = run_calls cs (perform c st)"

text \<open>A clip of 100 frames of 640 x 480 at 25 frames per second, and a file of 2048
  bytes with given outcomes of opening it with the two backends.\<close>

definition example_props :: video_props where
  "example_props =
     \<lparr>FRAME_WIDTH = 640, FRAME_HEIGHT = 480, FPS = Finite 25, FRAME_COUNT = 100,
      read_at = (\<lambda>s. case s of
                       CAP_PROP_POS_FRAMES n \<Rightarrow> (if n < 100 then Frame 480 640 else NoFrame)
                     | CAP_PROP_POS_MSEC t \<Rightarrow> Frame 480 640)\<rparr>"

definition example_file :: "capture \<Rightarrow> capture \<Rightarrow> file_info" where
  "example_file c_any c_ffmpeg =
     \<lparr>getsize = 2048, getmtime = ''Mon Jan  1 00:00:00 2024'',
      getctime = ''Mon Jan  1 00:00:00 2024'',
      VideoCapture = (\<lambda>b. case b of CAP_ANY \<Rightarrow> c_any | CAP_FFMPEG \<Rightarrow> c_ffmpeg)\<rparr>"

definition good_file :: file_info where
  "good_file = example_file (Opened example_props) (Opened example_props)"

definition unreadable_file :: file_info where
  "unreadable_file = example_file NotOpened NotOpened"

text \<open>The record that the probe computes for the example clip.\<close>

definition good_metadata :: metadata where
  "good_metadata =
     \<lparr>md_width = 640, md_height = 480, md_fps = Finite 25, md_duration = Finite 4,
      md_size = 2048, md_date_modified = ''Mon Jan  1 00:00:00 2024'',
      md_date_created = ''Mon Jan  1 00:00:00 2024''\<rparr>"

text \<open>A module state whose two dicts hold 100 entries each, for other paths.\<close>

definition full_state :: module_state where
  "full_state =
     \<lparr>metadata_cache =
        map (\<lambda>i. (replicate i CHR ''x'' @ ''.mp4'', good_metadata)) [0..<100],
      thumbnail_cache =
        map (\<lambda>i. (cache_key (replicate i CHR ''x'' @ ''.mp4'') (PyFloat float_0_1)
                       \<lparr>width = 320, height = 180\<rparr>,
                     placeholder \<lparr>width = 320, height = 180\<rparr>)) [0..<100],
      lru_cache = []\<rparr>"

text \<open>Both dicts hold at most \<open>_CACHE_SIZE_LIMIT\<close> entries, under distinct keys.\<close>

definition caches_ok :: "module_state \<Rightarrow> bool" where
  "caches_ok st \<longleftrightarrow>
     length (metadata_cache st) \<le> CACHE_SIZE_LIMIT \<and> distinct (map fst (metadata_cache st))
     \<and> length (thumbnail_cache st) \<le> CACHE_SIZE_LIMIT
     \<and> distinct (map fst (thumbnail_cache st))"

text \<open>A catalogue with one watched, tagged video, and one whose only video has a size
  of 5000000000 bytes.\<close>

definition watched_row :: video_row where
  "watched_row =
     \<lparr>id_col = 1, file_path = ''/v/a.mp4'', file_name = ''a.mp4'', folder_path = ''/v'',
      size_col = 2048, duration = Finite 4, watched = 1, last_watched = Some ''2024-01-02'',
      last_position = 1500, date_added = ''Mon Jan  1 00:00:00 2024'',
      date_modified = ''Mon Jan  1 00:00:00 2024''\<rparr>"

definition example_db :: database where
  "example_db =
     \<lparr>videos = [watched_row], sqlite_sequence = 1, tags = [(1, ''holiday''), (2, ''work'')],
      video_tags = [(1, 1)]\<rparr>"

definition large_db :: database where
  "large_db = example_db\<lparr>videos := [watched_row\<lparr>size_col := 5000000000\<rparr>]\<rparr>"

text \<open>What holds of the trace and the pool in every state of a request.\<close>

definition order_inv :: "system \<Rightarrow> bool" where
  "order_inv s \<longleftrightarrow> thumbnails_preceded (signals s) \<and> pending_announced s"

text \<open>
  A folder \<open>/v\<close> with two readable clips, of which \<open>a.mp4\<close> is in the example
  catalogue, and a schedule that runs the request to its end, the thumbnail of the
  second file arriving before that of the first.
\<close>

definition example_fs :: filesystem where
  "example_fs = [''/v/a.mp4'' \<mapsto> good_file, ''/v/b.mp4'' \<mapsto> good_file]"

definition example_schedule :: "(filesystem \<times> choice) list" where
  "example_schedule =
     map (Pair example_fs)
       [Loader, Loader, Loader, Loader, Worker 1, Loader, Worker 0, Loader, Loader]"

text \<open>
  Two more schedules: the next request cancels this one after its first signal and
  resets the flag before the loader, which has left the loop, tests it again; and the
  catalogue raises on the lookup of the first file.
\<close>

definition overtaken_schedule :: "(filesystem \<times> choice) list" where
  "overtaken_schedule = map (Pair example_fs) [Loader, Cancel, Loader, Reset, Loader]"

definition raising_schedule :: "(filesystem \<times> choice) list" where
  "raising_schedule = map (Pair example_fs) [Loader, LoaderRaises 0, Loader]"

section \<open>The frame that a thumbnail is taken from\<close>

lemma pow2_pos: "0 < pow2 k"
  by (simp add: pow2_def)

lemma round_half_even_nonneg: "0 \<le> m \<Longrightarrow> 0 \<le> round_half_even m"
  by (auto simp: round_half_even_def Let_def)

lemma round_magnitude_nonneg:
  assumes "0 < x" "round_magnitude x = Some v"
  shows "0 \<le> v"
proof -
  let ?q = "pow2 (max (ilog2 x - 52) (- 1074))"
  have q: "0 < ?q" by (rule pow2_pos)
  have "0 \<le> x / ?q" using assms(1) q by simp
  then have "0 \<le> round_half_even (x / ?q)" by (rule round_half_even_nonneg)
  then have "0 \<le> of_int (round_half_even (x / ?q)) * ?q"
    using q by simp
  moreover have "v = of_int (round_half_even (x / ?q)) * ?q"
    using assms(2) by (simp add: round_magnitude_def Let_def split: if_splits)
  ultimately show ?thesis by simp
qed

lemma round_double_nonneg:
  assumes "0 \<le> x"
  shows "round_double x = PosInf \<or> (\<exists>v\<ge>0. round_double x = Finite v)"
proof (cases "x = 0")
  case True
  then show ?thesis by (simp add: round_double_def)
next
  case False
  then have pos: "0 < x" using assms by simp
  show ?thesis
  proof (cases "round_magnitude x")
    case None
    then show ?thesis using pos by (simp add: round_double_def)
  next
    case (Some v)
    then show ?thesis
      using pos round_magnitude_nonneg [OF pos Some] by (simp add: round_double_def)
  qed
qed

lemma round_double_nonpos:
  assumes "x \<le> 0"
  shows "round_double x = NegInf \<or> round_double x = NegZero
         \<or> (\<exists>v\<le>0. round_double x = Finite v)"
proof (cases "x = 0")
  case True
  then show ?thesis by (simp add: round_double_def)
next
  case False
  then have neg: "0 < - x" "\<not> 0 < x" using assms by simp_all
  show ?thesis
  proof (cases "round_magnitude (- x)")
    case None
    then show ?thesis using neg False by (simp add: round_double_def)
  next
    case (Some v)
    then show ?thesis
      using neg False round_magnitude_nonneg [OF neg(1) Some] by (simp add: round_double_def)
  qed
qed

lemma float_of_int_nonneg:
  assumes "0 \<le> i" "float_of_int i = Inr a"
  shows "\<exists>v\<ge>0. a = Finite v"
  using round_double_nonneg [of "of_int i"] assms
  by (auto simp: float_of_int_def split: double.splits)

text \<open>The product of a float that is not negative with one that is not positive is
  truncated to an integer that is not positive, if it is truncated at all.\<close>

lemma py_int_fmul_nonpos:
  assumes "0 \<le> v" "le_zero x" "py_int (fmul (Finite v) x) = Inr n"
  shows "n \<le> 0"
proof (cases x)
  case (Finite r)
  then have r: "r \<le> 0" using assms(2) by (simp add: le_zero_def)
  then have prod: "v * r \<le> 0" using assms(1) by (simp add: mult_le_0_iff)
  show ?thesis
  proof (cases "v * r = 0")
    case True
    then show ?thesis using assms(3) Finite
      by (auto simp: fmul_def is_inf_def signed_def py_int_def split: if_splits)
  next
    case False
    then have f: "fmul (Finite v) x = round_double (v * r)"
      using Finite by (simp add: fmul_def is_inf_def signed_def)
    from round_double_nonpos [OF prod] show ?thesis
      using assms(3) unfolding f
      by (auto simp: py_int_def ceiling_le_iff split: if_splits dest: antisym)
  qed
next
  case NegZero
  then show ?thesis using assms(3)
    by (auto simp: fmul_def is_inf_def signed_def py_int_def split: if_splits)
next
  case PosInf
  then show ?thesis using assms(2) by (simp add: le_zero_def)
next
  case NegInf
  then show ?thesis using assms(3)
    by (auto simp: fmul_def is_inf_def is_zero_def py_int_def split: if_splits)
next
  case NaN
  then show ?thesis using assms(2) by (simp add: le_zero_def)
qed

lemma target_frame_nonpos:
  assumes "0 < tf" "le_zero x" "target_frame tf (PyFloat x) = Inr n"
  shows "n \<le> 0"
proof -
  from assms(3) obtain a where a: "float_of_int tf = Inr a" "py_int (fmul a x) = Inr n"
    by (auto simp: target_frame_def and_then_def split: sum.splits)
  from float_of_int_nonneg [OF _ a(1)] assms(1) obtain v where "0 \<le> v" "a = Finite v"
    by auto
  then show ?thesis using py_int_fmul_nonpos [OF _ assms(2)] a(2) by simp
qed

lemma seek_target_frames:
  assumes "0 < FRAME_COUNT cap"
  shows "seek_target f cap position =
           and_then (target_frame (FRAME_COUNT cap) position)
             (\<lambda>n. Inr (CAP_PROP_POS_FRAMES (max 1 n)))"
proof -
  have m: "(if n \<le> 0 then 1 else n) = max 1 n" for n :: int
    by auto
  show ?thesis
    using assms by (simp add: seek_target_def Let_def m)
qed

text \<open>The float arithmetic of the example clip, evaluated.\<close>

lemma example_seeks:
  "seek_target good_file example_props (PyFloat float_0_1) = Inr (CAP_PROP_POS_FRAMES 10)"
  "seek_target good_file example_props (PyFloat float_0_5) = Inr (CAP_PROP_POS_FRAMES 50)"
  "seek_target good_file example_props (PyFloat float_0_9) = Inr (CAP_PROP_POS_FRAMES 90)"
  "seek_target good_file example_props
     (PyFloat (Finite (5404319552844595 / 18014398509481984))) = Inr (CAP_PROP_POS_FRAMES 30)"
  "seek_target good_file example_props (PyFloat (Finite 0)) = Inr (CAP_PROP_POS_FRAMES 1)"
  "seek_target good_file example_props (PyFloat (Finite (- 1))) = Inr (CAP_PROP_POS_FRAMES 1)"
  by code_simp+

text \<open>The rounding shows: 100 frames at 30 frames per second last 3.3333333333333335
  seconds, a frame of 40 x 29 is resized for 160 x 90 to 160 x 115, where the exact
  quotient would give 116, and a frame of 1 x 49 cannot be resized for 49 x 49, the width
  \<open>int(49 * (1 / 49))\<close> being 0.\<close>

lemma example_roundings:
  "duration_of 100 (Finite 30) = Inr (Finite (7505999378950827 / 2251799813685248))"
  "new_size 29 40 \<lparr>width = 160, height = 90\<rparr> = Inr (160, 115)"
  "frame_to_pixmap 49 1 \<lparr>width = 49, height = 49\<rparr> = Inl CvError"
  by code_simp+

text \<open>
  C7. The position is not clamped from above: the frame sought is the truncated product
  of frame count and position, in the arithmetic of the position, raised to 1 when it
  is not positive. So whenever the frame count is positive and a frame is sought, its
  index is at least 1; the product with an integer position is exact; the positions 0
  and 0.0 and every position that is not positive select frame 1, unless the arithmetic
  raises.
\<close>

theorem seek_target_at_least_frame_one:
  assumes "0 < FRAME_COUNT cap"
  shows "((\<exists>e. seek_target f cap position = Inl e)
          \<or> (\<exists>n\<ge>1. seek_target f cap position = Inr (CAP_PROP_POS_FRAMES n)))
         \<and> seek_target f cap (PyInt k)
             = Inr (CAP_PROP_POS_FRAMES (max 1 (FRAME_COUNT cap * k)))
         \<and> seek_target f cap (PyInt 0) = Inr (CAP_PROP_POS_FRAMES 1)
         \<and> (le_zero x \<longrightarrow>
              seek_target f cap (PyFloat x) = Inr (CAP_PROP_POS_FRAMES 1)
              \<or> (\<exists>e. seek_target f cap (PyFloat x) = Inl e))"
proof -
  note sk = seek_target_frames [OF assms]
  have shape: "(\<exists>e. seek_target f cap position = Inl e)
          \<or> (\<exists>n\<ge>1. seek_target f cap position = Inr (CAP_PROP_POS_FRAMES n))"
    unfolding sk by (cases "target_frame (FRAME_COUNT cap) position") (simp_all add: and_then_def)
  have exact: "seek_target f cap (PyInt j)
             = Inr (CAP_PROP_POS_FRAMES (max 1 (FRAME_COUNT cap * j)))" for j
    unfolding sk by (simp add: target_frame_def and_then_def)
  have zero: "seek_target f cap (PyInt 0) = Inr (CAP_PROP_POS_FRAMES 1)"
    using exact [of 0] by simp
  have low: "seek_target f cap (PyFloat x) = Inr (CAP_PROP_POS_FRAMES 1)
              \<or> (\<exists>e. seek_target f cap (PyFloat x) = Inl e)" if "le_zero x"
  proof (cases "target_frame (FRAME_COUNT cap) (PyFloat x)")
    case (Inl e)
    then show ?thesis unfolding sk by (simp add: and_then_def)
  next
    case (Inr n)
    then have "n \<le> 0" using target_frame_nonpos [OF assms that] by simp
    then show ?thesis unfolding sk using Inr by (simp add: and_then_def max_def)
  qed
  show ?thesis
    using shape exact [of k] zero low by blast
qed

theorem seek_target_at_least_frame_one_witness:
  "0 < FRAME_COUNT example_props
   \<and> le_zero (Finite (- 1))
   \<and> seek_target good_file example_props (PyFloat (Finite (- 1))) = Inr (CAP_PROP_POS_FRAMES 1)
   \<and> seek_target good_file example_props (PyFloat (Finite 0)) = Inr (CAP_PROP_POS_FRAMES 1)
   \<and> seek_target good_file example_props (PyInt 0) = Inr (CAP_PROP_POS_FRAMES 1)
   \<and> seek_target good_file example_props (PyInt 3) = Inr (CAP_PROP_POS_FRAMES 300)
   \<and> seek_target good_file example_props (PyFloat float_0_1) = Inr (CAP_PROP_POS_FRAMES 10)
   \<and> seek_target good_file example_props
       (PyFloat (Finite (5404319552844595 / 18014398509481984)))
       = Inr (CAP_PROP_POS_FRAMES 30)"
proof -
  have fc: "FRAME_COUNT example_props = 100"
    by (simp add: example_props_def)
  show ?thesis
    using seek_target_at_least_frame_one
      [of example_props good_file "PyFloat (Finite (- 1))" 3 "Finite (- 1)"]
    by (simp add: fc example_seeks le_zero_def)
qed

theorem seek_target_not_clamped_counterexample:
  "seek_target good_file example_props (PyFloat (Finite 2)) = Inr (CAP_PROP_POS_FRAMES 200)
   \<and> seek_target good_file example_props (PyFloat (Finite (min 1 (max 0 2))))
       = Inr (CAP_PROP_POS_FRAMES 100)"
  by code_simp

section \<open>The capacity of the two caches\<close>

lemma length_update_le: "length (AList.update k v al) \<le> Suc (length al)"
  by (induction al) auto

lemma length_cache_store: "length (cache_store c k v) \<le> CACHE_SIZE_LIMIT"
proof (cases "length c \<ge> CACHE_SIZE_LIMIT")
  case True
  then show ?thesis by (simp add: cache_store_def CACHE_SIZE_LIMIT_def)
next
  case False
  then have "length (AList.update k v c) \<le> CACHE_SIZE_LIMIT"
    using length_update_le [of k v c] by simp
  with False show ?thesis by (simp add: cache_store_def)
qed

lemma distinct_cache_store:
  "distinct (map fst c) \<Longrightarrow> distinct (map fst (cache_store c k v))"
  by (simp add: cache_store_def distinct_update)

lemma cache_store_full: "length c \<ge> CACHE_SIZE_LIMIT \<Longrightarrow> cache_store c k v = [(k, v)]"
  by (simp add: cache_store_def)

lemma cache_store_alone: "cache_store c k v = alone (AtTest k v) c"
  by (simp add: cache_store_def alone_def)

lemma wrapped_ok: "caches_ok st \<Longrightarrow> caches_ok (snd (get_video_metadata_wrapped fs p st))"
  by (auto simp: get_video_metadata_wrapped_def caches_ok_def length_cache_store
      distinct_cache_store split: option.splits sum.splits)

lemma metadata_ok: "caches_ok st \<Longrightarrow> caches_ok (snd (get_video_metadata fs p st))"
proof -
  assume ok: "caches_ok st"
  show ?thesis
  proof (cases "map_of (lru_cache st) p")
    case None
    obtain r st' where w: "get_video_metadata_wrapped fs p st = (r, st')"
      by (cases "get_video_metadata_wrapped fs p st")
    have "caches_ok st'" using wrapped_ok [OF ok, of fs p] w by simp
    then show ?thesis using None w
      by (simp add: get_video_metadata_def caches_ok_def)
  next
    case (Some r)
    then show ?thesis using ok
      by (simp add: get_video_metadata_def caches_ok_def)
  qed
qed

lemma thumbnail_ok: "caches_ok st \<Longrightarrow> caches_ok (snd (extract_thumbnail fs p pos sz st))"
  by (auto simp: extract_thumbnail_def caches_ok_def length_cache_store Let_def
      distinct_cache_store split: option.splits sum.splits bool.splits prod.splits)

lemma perform_ok: "caches_ok st \<Longrightarrow> caches_ok (perform c st)"
proof (cases c)
  case (Pair fs cl)
  assume ok: "caches_ok st"
  show ?thesis
  proof (cases cl)
    case (GetVideoMetadata p)
    then show ?thesis using Pair metadata_ok [OF ok] by simp
  next
    case (ExtractThumbnail p pos sz)
    then show ?thesis using Pair thumbnail_ok [OF ok] by simp
  next
    case ClearCaches
    then show ?thesis using Pair ok by (simp add: clear_caches_def caches_ok_def)
  qed
qed

lemma run_calls_ok: "caches_ok st \<Longrightarrow> caches_ok (run_calls cs st)"
  by (induction cs arbitrary: st) (simp_all add: perform_ok)

lemma initial_ok: "caches_ok initial_state"
  by (simp add: caches_ok_def initial_state_def)

text \<open>What the two functions store on a miss.\<close>

lemma extract_thumbnail_stores:
  assumes "fs p = Some f" "map_of (thumbnail_cache st) (cache_key p position tsize) = None"
    "try_extract f position tsize = Inr (pixmap, True)"
  shows "extract_thumbnail fs p position tsize st
         = (Some pixmap,
            st\<lparr>thumbnail_cache :=
                 cache_store (thumbnail_cache st) (cache_key p position tsize) pixmap\<rparr>)"
  using assms by (simp add: extract_thumbnail_def Let_def)

lemma get_video_metadata_wrapped_stores:
  assumes "fs p = Some f" "map_of (metadata_cache st) p = None" "probe f = Inr (Some md)"
  shows "get_video_metadata_wrapped fs p st
         = (Some md, st\<lparr>metadata_cache := cache_store (metadata_cache st) p md\<rparr>)"
  using assms by (simp add: get_video_metadata_wrapped_def)

lemma about_to_store_le: "about_to_store cs \<le> length cs"
  by (simp add: about_to_store_def)

lemma about_to_store_append: "about_to_store (xs @ ys) = about_to_store xs + about_to_store ys"
  by (simp add: about_to_store_def)

lemma about_to_store_Cons:
  "about_to_store (c # cs) = (case c of AtStore k v \<Rightarrow> 1 | _ \<Rightarrow> 0) + about_to_store cs"
  by (simp add: about_to_store_def split: storing.splits)

lemma about_to_store_split:
  assumes "j < length cs"
  shows "about_to_store cs =
           about_to_store (take j cs) + (case cs ! j of AtStore k v \<Rightarrow> 1 | _ \<Rightarrow> 0)
           + about_to_store (drop (Suc j) cs)"
proof -
  have "cs = take j cs @ cs ! j # drop (Suc j) cs"
    using assms by (simp add: id_take_nth_drop)
  then have "about_to_store cs = about_to_store (take j cs @ cs ! j # drop (Suc j) cs)"
    by simp
  then show ?thesis by (simp add: about_to_store_append about_to_store_Cons)
qed

lemma about_to_store_update:
  assumes "j < length cs"
  shows "about_to_store (cs[j := c]) =
           about_to_store (take j cs) + (case c of AtStore k v \<Rightarrow> 1 | _ \<Rightarrow> 0)
           + about_to_store (drop (Suc j) cs)"
  using assms by (simp add: upd_conv_take_nth_drop about_to_store_append about_to_store_Cons)

lemma store_inv_step:
  assumes "store_inv threads s"
  shows "store_inv threads (store_step threads m s)"
proof (cases m)
  case (Arrive k v)
  then show ?thesis using assms
    by (auto simp: store_inv_def about_to_store_append about_to_store_Cons about_to_store_def)
next
  case ClearAll
  then show ?thesis using assms by (simp add: store_inv_def)
next
  case (Advance j)
  show ?thesis
  proof (cases "j < length (calls s)")
    case False
    then show ?thesis using Advance assms by simp
  next
    case True
    note sp = about_to_store_split [OF True]
    have rest: "about_to_store (take j (calls s)) + about_to_store (drop (Suc j) (calls s))
                  \<le> length (calls s) - 1"
    proof -
      have "about_to_store (take j (calls s)) \<le> j"
        using about_to_store_le [of "take j (calls s)"] True by simp
      moreover have "about_to_store (drop (Suc j) (calls s)) \<le> length (calls s) - Suc j"
        using about_to_store_le [of "drop (Suc j) (calls s)"] by simp
      ultimately show ?thesis using True by simp
    qed
    show ?thesis
    proof (cases "calls s ! j")
      case (AtTest k v)
      then show ?thesis using Advance True assms sp rest
        by (auto simp: store_inv_def about_to_store_update CACHE_SIZE_LIMIT_def)
    next
      case (AtClear k v)
      then show ?thesis using Advance True assms sp rest
        by (auto simp: store_inv_def about_to_store_update)
    next
      case (AtStore k v)
      then show ?thesis using Advance True assms sp length_update_le [of k v "dict s"]
        by (auto simp: store_inv_def about_to_store_append)
    qed
  qed
qed

lemma store_inv_run: "store_inv threads s \<Longrightarrow> store_inv threads (store_run threads ms s)"
  by (induction ms arbitrary: s) (simp_all add: store_inv_step)

lemma store_inv_initial: "store_inv threads \<lparr>dict = [], calls = []\<rparr>"
  by (simp add: store_inv_def about_to_store_def)

lemma store_run_bound:
  "length (dict (store_run threads ms \<lparr>dict = [], calls = []\<rparr>)) \<le> 99 + threads"
  using store_inv_run [OF store_inv_initial, of threads ms] by (simp add: store_inv_def)

text \<open>The thumbnail of the example clip, with the float arithmetic evaluated.\<close>

lemma example_thumbnail:
  "try_extract good_file (PyFloat float_0_1) \<lparr>width = 320, height = 180\<rparr>
     = Inr (Scaled (FromImage 320 240) \<lparr>width = 320, height = 180\<rparr>, True)"
  by code_simp

lemma example_probe: "probe good_file = Inr (Some good_metadata)"
  by code_simp

text \<open>
  C9. When the calls of \<open>get_video_metadata\<close>, \<open>extract_thumbnail\<close> and \<open>clear_caches\<close>
  do not overlap, each of the two dicts holds at most 100 entries, under distinct keys,
  after any sequence of calls from the empty module state, on any file systems. A call
  of either function that has computed a new value stores it as \<open>cache_store\<close> does,
  which is what the three statements do when no other thread runs in between: the store
  leaves at most 100 entries, and when it finds 100 or more entries it clears them all
  and leaves the new entry alone. When calls overlap, with at most \<open>threads\<close> of them at
  once between their test and their store, a dict that starts empty never holds more
  than \<open>99 + threads\<close> entries.
\<close>

theorem caches_never_exceed_limit:
  "length (metadata_cache (run_calls cs initial_state)) \<le> 100
   \<and> length (thumbnail_cache (run_calls cs initial_state)) \<le> 100
   \<and> distinct (map fst (metadata_cache (run_calls cs initial_state)))
   \<and> distinct (map fst (thumbnail_cache (run_calls cs initial_state)))
   \<and> (fs p = Some f \<and> map_of (thumbnail_cache st) (cache_key p position tsize) = None
        \<and> try_extract f position tsize = Inr (pixmap, True)
      \<longrightarrow> thumbnail_cache (snd (extract_thumbnail fs p position tsize st))
            = cache_store (thumbnail_cache st) (cache_key p position tsize) pixmap
          \<and> (length (thumbnail_cache st) \<ge> 100
             \<longrightarrow> thumbnail_cache (snd (extract_thumbnail fs p position tsize st))
                   = [(cache_key p position tsize, pixmap)]))
   \<and> (fs p = Some f \<and> map_of (metadata_cache st) p = None \<and> probe f = Inr (Some md)
      \<longrightarrow> metadata_cache (snd (get_video_metadata_wrapped fs p st))
            = cache_store (metadata_cache st) p md
          \<and> (length (metadata_cache st) \<ge> 100
             \<longrightarrow> metadata_cache (snd (get_video_metadata_wrapped fs p st)) = [(p, md)]))
   \<and> cache_store c k v = alone (AtTest k v) c
   \<and> length (cache_store c k v) \<le> 100
   \<and> (length c \<ge> 100 \<longrightarrow> cache_store c k v = [(k, v)])
   \<and> (length c < 100 \<longrightarrow> cache_store c k v = AList.update k v c)
   \<and> length (dict (store_run threads ms \<lparr>dict = [], calls = ([] :: ('k, 'v) storing list)\<rparr>))
       \<le> 99 + threads"
proof -
  have seq: "length (metadata_cache (run_calls cs initial_state)) \<le> 100
   \<and> length (thumbnail_cache (run_calls cs initial_state)) \<le> 100
   \<and> distinct (map fst (metadata_cache (run_calls cs initial_state)))
   \<and> distinct (map fst (thumbnail_cache (run_calls cs initial_state)))"
    using run_calls_ok [OF initial_ok, of cs] by (simp add: caches_ok_def CACHE_SIZE_LIMIT_def)
  have th: "thumbnail_cache (snd (extract_thumbnail fs p position tsize st))
            = cache_store (thumbnail_cache st) (cache_key p position tsize) pixmap
          \<and> (length (thumbnail_cache st) \<ge> 100
             \<longrightarrow> thumbnail_cache (snd (extract_thumbnail fs p position tsize st))
                   = [(cache_key p position tsize, pixmap)])"
    if "fs p = Some f \<and> map_of (thumbnail_cache st) (cache_key p position tsize) = None
        \<and> try_extract f position tsize = Inr (pixmap, True)"
    using that extract_thumbnail_stores [of fs p f st position tsize pixmap]
    by (simp add: cache_store_def CACHE_SIZE_LIMIT_def)
  have md: "metadata_cache (snd (get_video_metadata_wrapped fs p st))
            = cache_store (metadata_cache st) p md
          \<and> (length (metadata_cache st) \<ge> 100
             \<longrightarrow> metadata_cache (snd (get_video_metadata_wrapped fs p st)) = [(p, md)])"
    if "fs p = Some f \<and> map_of (metadata_cache st) p = None \<and> probe f = Inr (Some md)"
    using that get_video_metadata_wrapped_stores [of fs p f st md]
    by (simp add: cache_store_def CACHE_SIZE_LIMIT_def)
  have st: "cache_store c k v = alone (AtTest k v) c
   \<and> length (cache_store c k v) \<le> 100
   \<and> (length c \<ge> 100 \<longrightarrow> cache_store c k v = [(k, v)])
   \<and> (length c < 100 \<longrightarrow> cache_store c k v = AList.update k v c)"
    using length_cache_store [of c k v] cache_store_alone [of c k v]
    by (simp add: cache_store_def CACHE_SIZE_LIMIT_def)
  have conc: "length (dict (store_run threads ms
                 \<lparr>dict = [], calls = ([] :: ('k, 'v) storing list)\<rparr>)) \<le> 99 + threads"
    by (rule store_run_bound)
  show ?thesis
    using seq th md st conc by blast
qed

theorem caches_never_exceed_limit_witness:
  "[''/v/a.mp4'' \<mapsto> good_file] ''/v/a.mp4'' = Some good_file
   \<and> map_of (thumbnail_cache full_state)
        (cache_key ''/v/a.mp4'' (PyFloat float_0_1) \<lparr>width = 320, height = 180\<rparr>) = None
   \<and> try_extract good_file (PyFloat float_0_1) \<lparr>width = 320, height = 180\<rparr>
       = Inr (Scaled (FromImage 320 240) \<lparr>width = 320, height = 180\<rparr>, True)
   \<and> length (thumbnail_cache full_state) \<ge> 100
   \<and> thumbnail_cache
        (snd (extract_thumbnail [''/v/a.mp4'' \<mapsto> good_file] ''/v/a.mp4'' (PyFloat float_0_1)
                \<lparr>width = 320, height = 180\<rparr> full_state))
       = [(cache_key ''/v/a.mp4'' (PyFloat float_0_1) \<lparr>width = 320, height = 180\<rparr>,
           Scaled (FromImage 320 240) \<lparr>width = 320, height = 180\<rparr>)]
   \<and> map_of (metadata_cache full_state) ''/v/a.mp4'' = None
   \<and> probe good_file = Inr (Some good_metadata)
   \<and> length (metadata_cache full_state) \<ge> 100
   \<and> metadata_cache
        (snd (get_video_metadata_wrapped [''/v/a.mp4'' \<mapsto> good_file] ''/v/a.mp4'' full_state))
       = [(''/v/a.mp4'', good_metadata)]
   \<and> length (zip [0..<100] [0..<100::nat]) \<ge> 100
   \<and> cache_store (zip [0..<100] [0..<100::nat]) 100 7 = [(100, 7)]
   \<and> length (zip [0..<99] [0..<99::nat]) < 100
   \<and> length (cache_store (zip [0..<99] [0..<99::nat]) 100 7) = 100"
proof -
  have t: "map_of (thumbnail_cache full_state)
        (cache_key ''/v/a.mp4'' (PyFloat float_0_1) \<lparr>width = 320, height = 180\<rparr>) = None"
    by code_simp
  have m: "map_of (metadata_cache full_state) ''/v/a.mp4'' = None"
    by code_simp
  have l: "length (thumbnail_cache full_state) \<ge> 100" "length (metadata_cache full_state) \<ge> 100"
    by (simp_all add: full_state_def)
  have z: "length (zip [0..<100] [0..<100::nat]) \<ge> 100" "length (zip [0..<99] [0..<99::nat]) < 100"
    by simp_all
  have u: "length (AList.update 100 7 (zip [0..<99] [0..<99::nat])) = 100"
    by code_simp
  have f: "[''/v/a.mp4'' \<mapsto> good_file] ''/v/a.mp4'' = Some good_file"
    by simp
  have "thumbnail_cache
        (snd (extract_thumbnail [''/v/a.mp4'' \<mapsto> good_file] ''/v/a.mp4'' (PyFloat float_0_1)
                \<lparr>width = 320, height = 180\<rparr> full_state))
       = [(cache_key ''/v/a.mp4'' (PyFloat float_0_1) \<lparr>width = 320, height = 180\<rparr>,
           Scaled (FromImage 320 240) \<lparr>width = 320, height = 180\<rparr>)]
   \<and> metadata_cache
        (snd (get_video_metadata_wrapped [''/v/a.mp4'' \<mapsto> good_file] ''/v/a.mp4'' full_state))
       = [(''/v/a.mp4'', good_metadata)]
   \<and> cache_store (zip [0..<100] [0..<100::nat]) 100 7 = [(100, 7)]"
    using caches_never_exceed_limit
      [where fs = "[''/v/a.mp4'' \<mapsto> good_file]" and p = "''/v/a.mp4''" and f = good_file
         and st = full_state and position = "PyFloat float_0_1"
         and tsize = "\<lparr>width = 320, height = 180\<rparr>"
         and pixmap = "Scaled (FromImage 320 240) \<lparr>width = 320, height = 180\<rparr>"
         and md = good_metadata and c = "zip [0..<100] [0..<100::nat]" and k = 100 and v = 7]
      f t m l z(1) example_thumbnail example_probe
    by blast
  moreover have "cache_store (zip [0..<99] [0..<99::nat]) 100 7
      = AList.update 100 7 (zip [0..<99] [0..<99::nat])"
    using caches_never_exceed_limit
      [where c = "zip [0..<99] [0..<99::nat]" and k = 100 and v = 7] z(2)
    by blast
  then have "length (cache_store (zip [0..<99] [0..<99::nat]) 100 7) = 100"
    using u by simp
  ultimately show ?thesis
    using f t m l z example_thumbnail example_probe by blast
qed

theorem caches_exceed_limit_counterexample:
  "length (dict (store_run 2
       [Arrive 99 0, Arrive 100 0, Advance 0, Advance 1, Advance 0, Advance 0]
       \<lparr>dict = zip [0..<99] [0..<99::nat], calls = []\<rparr>)) = 101"
  by code_simp

section \<open>What a failed thumbnail extraction returns\<close>

lemma try_extract_failure:
  assumes "VideoCapture f CAP_FFMPEG = NotOpened
     \<or> (\<exists>cap target. VideoCapture f CAP_FFMPEG = Opened cap
            \<and> seek_target f cap position = Inr target \<and> read_at cap target = NoFrame)"
  shows "try_extract f position tsize = Inr (placeholder tsize, False)"
  using assms by (auto simp: try_extract_def and_then_def)

lemma extract_thumbnail_existing:
  "fs p = Some f \<Longrightarrow> fst (extract_thumbnail fs p position tsize st) \<noteq> None"
  by (auto simp: extract_thumbnail_def Let_def split: option.splits sum.splits bool.splits prod.splits)

text \<open>
  C1. For a path that does not exist \<open>extract_thumbnail\<close> returns \<open>None\<close> and leaves
  the module state alone; for every path that exists it returns a pixmap. When the path
  exists, no thumbnail is cached under its key, and the container does not open, no frame
  can be read, or a step of the \<open>try\<close> block raises, the result is the dark gray
  placeholder built from the requested size, nothing is stored, and for a size that is
  positive in both directions the placeholder has exactly the requested width and height.
  No exception leaves the function: every outcome is a returned value.
\<close>

theorem extract_thumbnail_failure_placeholder:
  "(fs p = None \<longrightarrow> extract_thumbnail fs p position tsize st = (None, st))
   \<and> (fs p \<noteq> None \<longrightarrow> fst (extract_thumbnail fs p position tsize st) \<noteq> None)
   \<and> (fs p = Some f
        \<and> map_of (thumbnail_cache st) (cache_key p position tsize) = None
        \<and> (VideoCapture f CAP_FFMPEG = NotOpened
            \<or> (\<exists>cap target. VideoCapture f CAP_FFMPEG = Opened cap
                   \<and> seek_target f cap position = Inr target
                   \<and> read_at cap target = NoFrame)
            \<or> (\<exists>e. try_extract f position tsize = Inl e))
      \<longrightarrow> extract_thumbnail fs p position tsize st = (Some (placeholder tsize), st))
   \<and> (0 < width tsize \<and> 0 < height tsize
      \<longrightarrow> pixmap_size (placeholder tsize) = (width tsize, height tsize))"
proof -
  have a: "fs p = None \<Longrightarrow> extract_thumbnail fs p position tsize st = (None, st)"
    by (simp add: extract_thumbnail_def)
  have b: "fs p \<noteq> None \<Longrightarrow> fst (extract_thumbnail fs p position tsize st) \<noteq> None"
    using extract_thumbnail_existing by auto
  have c: "extract_thumbnail fs p position tsize st = (Some (placeholder tsize), st)"
    if "fs p = Some f" "map_of (thumbnail_cache st) (cache_key p position tsize) = None"
      "VideoCapture f CAP_FFMPEG = NotOpened
            \<or> (\<exists>cap target. VideoCapture f CAP_FFMPEG = Opened cap
                   \<and> seek_target f cap position = Inr target
                   \<and> read_at cap target = NoFrame)
            \<or> (\<exists>e. try_extract f position tsize = Inl e)"
  proof -
    from that(3) consider
      (fail) "try_extract f position tsize = Inr (placeholder tsize, False)"
      | (raise) e where "try_extract f position tsize = Inl e"
      using try_extract_failure [of f position tsize] by blast
    then show ?thesis
      using that(1,2) by cases (simp_all add: extract_thumbnail_def Let_def)
  qed
  have d: "0 < width tsize \<and> 0 < height tsize
      \<Longrightarrow> pixmap_size (placeholder tsize) = (width tsize, height tsize)"
    by (simp add: placeholder_def)
  show ?thesis using a b c d by blast
qed

theorem extract_thumbnail_failure_placeholder_witness:
  "[''a.mp4'' \<mapsto> unreadable_file] ''a.mp4'' = Some unreadable_file
   \<and> map_of (thumbnail_cache initial_state)
         (cache_key ''a.mp4'' (PyFloat float_0_1) \<lparr>width = 320, height = 180\<rparr>) = None
   \<and> VideoCapture unreadable_file CAP_FFMPEG = NotOpened
   \<and> extract_thumbnail [''a.mp4'' \<mapsto> unreadable_file] ''a.mp4'' (PyFloat float_0_1)
         \<lparr>width = 320, height = 180\<rparr> initial_state
       = (Some (placeholder \<lparr>width = 320, height = 180\<rparr>), initial_state)
   \<and> pixmap_size (placeholder \<lparr>width = 320, height = 180\<rparr>) = (320, 180)
   \<and> [''a.mp4'' \<mapsto> unreadable_file] ''b.mp4'' = None
   \<and> extract_thumbnail [''a.mp4'' \<mapsto> unreadable_file] ''b.mp4'' (PyFloat float_0_1)
         \<lparr>width = 320, height = 180\<rparr> initial_state
       = (None, initial_state)"
  using extract_thumbnail_failure_placeholder
    [of "[''a.mp4'' \<mapsto> unreadable_file]" "''a.mp4''" "PyFloat float_0_1"
        "\<lparr>width = 320, height = 180\<rparr>" initial_state unreadable_file]
    extract_thumbnail_failure_placeholder
    [of "[''a.mp4'' \<mapsto> unreadable_file]" "''b.mp4''" "PyFloat float_0_1"
        "\<lparr>width = 320, height = 180\<rparr>" initial_state unreadable_file]
  by (simp add: unreadable_file_def example_file_def initial_state_def)

theorem extract_thumbnail_null_counterexample:
  "fst (extract_thumbnail Map.empty ''missing.mp4'' (PyFloat float_0_1)
         \<lparr>width = 320, height = 180\<rparr> initial_state) = None"
  by (simp add: extract_thumbnail_def)

section \<open>What the metadata probe returns for unreadable and missing files\<close>





text \<open>
  C6. The decorator memoises \<open>None\<close>: probed once while the path does not exist,
  \<open>a.mp4\<close> is still reported as \<open>None\<close> after the file has appeared, although the
  function body would probe it; and probed once while it exists, it is still reported
  with its record after the file has gone, although the function body would return
  \<open>None\<close>.
\<close>

theorem get_video_metadata_memoises_missing_path:
  "(let (r1, st1) = get_video_metadata Map.empty ''a.mp4'' initial_state;
        (r2, st2) = get_video_metadata [''a.mp4'' \<mapsto> good_file] ''a.mp4'' st1
    in r1 = None \<and> r2 = None \<and> map_of (lru_cache st1) ''a.mp4'' = Some None
       \<and> fst (get_video_metadata_wrapped [''a.mp4'' \<mapsto> good_file] ''a.mp4'' st1) \<noteq> None)
   \<and> (let (r1, st1) = get_video_metadata [''a.mp4'' \<mapsto> good_file] ''a.mp4'' initial_state;
          (r2, st2) = get_video_metadata Map.empty ''a.mp4'' st1
      in r1 \<noteq> None \<and> r2 = r1
         \<and> fst (get_video_metadata_wrapped Map.empty ''a.mp4'' st1) = None)"
  by (simp add: get_video_metadata_def get_video_metadata_wrapped_def example_probe
      initial_state_def lru_maxsize_def cache_store_def CACHE_SIZE_LIMIT_def)

section \<open>Which files count as videos\<close>

lemma rfind_notin: "c \<notin> set xs \<Longrightarrow> rfind xs c = - 1"
  by (induction xs) (auto simp: Let_def)

lemma rfind_less: "rfind xs c < int (length xs)"
  by (induction xs) (auto simp: Let_def)

lemma rfind_last: "c \<notin> set ys \<Longrightarrow> rfind (xs @ c # ys) c = int (length xs)"
  by (induction xs) (auto simp: Let_def rfind_notin)

lemma rfind_append_notin: "c \<notin> set ys \<Longrightarrow> rfind (xs @ ys) c = rfind xs c"
  by (induction xs) (auto simp: Let_def rfind_notin)

lemma rfind_sep_prefix:
  assumes "pre = [] \<or> last pre = CHR ''/''" and "CHR ''/'' \<notin> set name"
  shows "rfind (pre @ name) CHR ''/'' = int (length pre) - 1"
proof (cases "pre = []")
  case True
  then show ?thesis using assms(2) by (simp add: rfind_notin)
next
  case False
  then obtain pre' where "pre = pre' @ ''/''"
    using assms(1) by (metis append_butlast_last_id)
  then show ?thesis using assms(2) rfind_last [of "CHR ''/''" name pre'] by simp
qed

lemma splitext_dotted:
  assumes pre: "pre = [] \<or> last pre = CHR ''/''"
    and stem: "\<exists>c\<in>set stem. c \<noteq> CHR ''.''" "CHR ''/'' \<notin> set stem"
    and x: "CHR ''/'' \<notin> set x" "CHR ''.'' \<notin> set x"
  shows "splitext (pre @ stem @ CHR ''.'' # x) = (pre @ stem, CHR ''.'' # x)"
proof -
  let ?p = "pre @ stem @ CHR ''.'' # x"
  have sep: "rfind ?p CHR ''/'' = int (length pre) - 1"
    using rfind_sep_prefix [OF pre, of "stem @ CHR ''.'' # x"] stem(2) x(1) by simp
  have dot: "rfind ?p CHR ''.'' = int (length pre + length stem)"
    using rfind_last [OF x(2), of "pre @ stem"] by simp
  have sl: "take (nat (int (length pre + length stem) - (int (length pre) - 1 + 1)))
              (drop (nat (int (length pre) - 1 + 1)) ?p) = stem"
    by simp
  show ?thesis
    unfolding splitext_def Let_def sep dot sl
    using stem(1) by (simp add: list_ex_iff)
qed

lemma splitext_undotted:
  assumes pre: "pre = [] \<or> last pre = CHR ''/''"
    and name: "CHR ''/'' \<notin> set name" "CHR ''.'' \<notin> set name"
  shows "splitext (pre @ name) = (pre @ name, [])"
proof -
  have sep: "rfind (pre @ name) CHR ''/'' = int (length pre) - 1"
    using rfind_sep_prefix [OF pre name(1)] .
  have "rfind (pre @ name) CHR ''.'' = rfind pre CHR ''.''"
    using rfind_append_notin [OF name(2)] .
  then have "\<not> rfind (pre @ name) CHR ''.'' > rfind (pre @ name) CHR ''/''"
    using rfind_less [of pre "CHR ''.''"] sep by simp
  then show ?thesis by (simp add: splitext_def Let_def)
qed

lemma join_name:
  assumes "name \<noteq> []" "CHR ''/'' \<notin> set name"
  shows "\<exists>pre. join folder name = pre @ name \<and> (pre = [] \<or> last pre = CHR ''/'')"
proof -
  have "hd name \<noteq> CHR ''/''" using assms by (cases name) auto
  then show ?thesis
    by (cases "folder = [] \<or> last folder = CHR ''/''")
       (auto simp: join_def intro: exI [of _ "folder @ ''/''"] exI [of _ folder])
qed

lemma is_video_file_dotted:
  assumes "\<exists>c\<in>set stem. c \<noteq> CHR ''.''" "CHR ''/'' \<notin> set stem"
    "CHR ''/'' \<notin> set x" "CHR ''.'' \<notin> set x"
  shows "is_video_file ul (join folder (stem @ CHR ''.'' # x))
         \<longleftrightarrow> lower ul (CHR ''.'' # x) \<in> set SUPPORTED_VIDEO_EXTENSIONS"
proof -
  obtain pre where j: "join folder (stem @ CHR ''.'' # x) = pre @ stem @ CHR ''.'' # x"
    and pre: "pre = [] \<or> last pre = CHR ''/''"
    using join_name [of "stem @ CHR ''.'' # x" folder] assms(2,3) by auto
  show ?thesis
    unfolding is_video_file_def Let_def j splitext_dotted [OF pre assms] by simp
qed

lemma is_video_file_undotted:
  assumes "name \<noteq> []" "CHR ''/'' \<notin> set name" "CHR ''.'' \<notin> set name"
  shows "\<not> is_video_file ul (join folder name)"
proof -
  obtain pre where j: "join folder name = pre @ name"
    and pre: "pre = [] \<or> last pre = CHR ''/''"
    using join_name [OF assms(1,2)] by auto
  show ?thesis
    unfolding is_video_file_def Let_def j splitext_undotted [OF pre assms(2,3)]
    by (simp add: lower_def is_ascii_def SUPPORTED_VIDEO_EXTENSIONS_def)
qed

text \<open>On ASCII, lowering yields a string without upper case letters exactly from its
  spellings.\<close>

lemma lower_char_same_letter:
  assumes "\<not> (65 \<le> (of_char d :: nat) \<and> (of_char d :: nat) \<le> 90)"
  shows "lower_char c = d \<longleftrightarrow> same_letter c d"
proof (cases "65 \<le> (of_char c :: nat) \<and> (of_char c :: nat) \<le> 90")
  case False
  then show ?thesis using assms by (auto simp: lower_char_def same_letter_def Let_def)
next
  case True
  have "c \<noteq> d" using True assms by auto
  moreover have "char_of (of_char c + 32 :: nat) = d \<longleftrightarrow> (of_char d :: nat) = of_char c + 32"
  proof
    assume "char_of (of_char c + 32 :: nat) = d"
    then have "(of_char d :: nat) = (of_char c + 32) mod 256"
      by (metis of_char_of)
    then show "(of_char d :: nat) = of_char c + 32" using True by simp
  next
    assume "(of_char d :: nat) = of_char c + 32"
    then show "char_of (of_char c + 32 :: nat) = d"
      by (metis char_of_char)
  qed
  ultimately show ?thesis using True by (simp add: lower_char_def same_letter_def Let_def)
qed

lemma map_lower_char_spelling:
  assumes "\<forall>d\<in>set s. \<not> (65 \<le> (of_char d :: nat) \<and> (of_char d :: nat) \<le> 90)"
  shows "map lower_char e = s \<longleftrightarrow> spelling_of e s"
  using assms
proof (induction e arbitrary: s)
  case Nil
  then show ?case by (auto simp: spelling_of_def)
next
  case (Cons c e)
  show ?case
  proof (cases s)
    case Nil
    then show ?thesis by (simp add: spelling_of_def)
  next
    case (Cons d s')
    have "map lower_char e = s' \<longleftrightarrow> spelling_of e s'"
      using Cons.IH [of s'] Cons.prems Cons by simp
    moreover have "lower_char c = d \<longleftrightarrow> same_letter c d"
      using lower_char_same_letter [of d c] Cons.prems Cons by simp
    ultimately show ?thesis using Cons by (simp add: spelling_of_def)
  qed
qed

lemma supported_lower_case:
  "s \<in> set SUPPORTED_VIDEO_EXTENSIONS \<Longrightarrow>
     \<forall>d\<in>set s. \<not> (65 \<le> (of_char d :: nat) \<and> (of_char d :: nat) \<le> 90)"
  by (auto simp: SUPPORTED_VIDEO_EXTENSIONS_def)

lemma lower_ascii_supported:
  assumes "is_ascii e"
  shows "lower ul e \<in> set SUPPORTED_VIDEO_EXTENSIONS
         \<longleftrightarrow> (\<exists>s\<in>set SUPPORTED_VIDEO_EXTENSIONS. spelling_of e s)"
proof
  assume "lower ul e \<in> set SUPPORTED_VIDEO_EXTENSIONS"
  then have m: "map lower_char e \<in> set SUPPORTED_VIDEO_EXTENSIONS"
    using assms by (simp add: lower_def)
  then have "spelling_of e (map lower_char e)"
    using map_lower_char_spelling [OF supported_lower_case [OF m], of e] by simp
  then show "\<exists>s\<in>set SUPPORTED_VIDEO_EXTENSIONS. spelling_of e s"
    using m by blast
next
  assume "\<exists>s\<in>set SUPPORTED_VIDEO_EXTENSIONS. spelling_of e s"
  then obtain s where s: "s \<in> set SUPPORTED_VIDEO_EXTENSIONS" "spelling_of e s"
    by blast
  then have "map lower_char e = s"
    using map_lower_char_spelling [OF supported_lower_case [OF s(1)], of e] by simp
  then show "lower ul e \<in> set SUPPORTED_VIDEO_EXTENSIONS"
    using s(1) assms by (simp add: lower_def)
qed

lemma is_ascii_dot: "is_ascii (CHR ''.'' # x) \<longleftrightarrow> is_ascii x"
  by (simp add: is_ascii_def)

lemma listing:
  "video_files ul folder [''a.mp4'', ''b.txt'', ''c.mkv''] = [''a.mp4'', ''c.mkv'']"
proof -
  have l: "lower ul ''.mp4'' = ''.mp4''" "lower ul ''.txt'' = ''.txt''"
    "lower ul ''.mkv'' = ''.mkv''"
    by (simp_all add: lower_def is_ascii_def lower_char_def)
  have a: "is_video_file ul (join folder ''a.mp4'')"
    using is_video_file_dotted [of "''a''" "''mp4''" ul folder]
    by (simp add: l SUPPORTED_VIDEO_EXTENSIONS_def)
  have b: "\<not> is_video_file ul (join folder ''b.txt'')"
    using is_video_file_dotted [of "''b''" "''txt''" ul folder]
    by (simp add: l SUPPORTED_VIDEO_EXTENSIONS_def)
  have c: "is_video_file ul (join folder ''c.mkv'')"
    using is_video_file_dotted [of "''c''" "''mkv''" ul folder]
    by (simp add: l SUPPORTED_VIDEO_EXTENSIONS_def)
  show ?thesis using a b c by (simp add: video_files_def)
qed

text \<open>
  C8. Whatever the case mapping of Unicode does outside ASCII: a file name made of a
  stem that holds a character other than a dot, a dot, and an extension without dot,
  joined to any folder, is a video file exactly when its extension with the dot,
  lowered by \<open>str.lower\<close>, is one of the twelve supported extensions. For an extension
  of ASCII characters that is the case exactly when the extension is a spelling, in any
  mix of upper and lower case letters, of one of the twelve; for any other extension it
  is the case exactly when the case mapping of Unicode lowers it to one of the twelve.
  A name without any dot is not a video file; and the listing of \<open>a.mp4\<close>, \<open>b.txt\<close>,
  \<open>c.mkv\<close> in any folder is filtered to \<open>a.mp4\<close>, \<open>c.mkv\<close>.
\<close>

theorem is_video_file_by_extension:
  "((\<exists>c\<in>set stem. c \<noteq> CHR ''.'') \<and> CHR ''/'' \<notin> set stem
      \<and> CHR ''/'' \<notin> set x \<and> CHR ''.'' \<notin> set x
     \<longrightarrow> (is_video_file ul (join folder (stem @ CHR ''.'' # x))
          \<longleftrightarrow> lower ul (CHR ''.'' # x) \<in> set SUPPORTED_VIDEO_EXTENSIONS)
        \<and> (is_ascii x \<longrightarrow>
             (is_video_file ul (join folder (stem @ CHR ''.'' # x))
              \<longleftrightarrow> (\<exists>s\<in>set SUPPORTED_VIDEO_EXTENSIONS. spelling_of (CHR ''.'' # x) s)))
        \<and> (\<not> is_ascii x \<longrightarrow>
             (is_video_file ul (join folder (stem @ CHR ''.'' # x))
              \<longleftrightarrow> ul (CHR ''.'' # x) \<in> set SUPPORTED_VIDEO_EXTENSIONS)))
   \<and> (name \<noteq> [] \<and> CHR ''/'' \<notin> set name \<and> CHR ''.'' \<notin> set name
     \<longrightarrow> \<not> is_video_file ul (join folder name))
   \<and> length SUPPORTED_VIDEO_EXTENSIONS = 12 \<and> distinct SUPPORTED_VIDEO_EXTENSIONS
   \<and> video_files ul folder [''a.mp4'', ''b.txt'', ''c.mkv''] = [''a.mp4'', ''c.mkv'']"
proof -
  have twelve: "length SUPPORTED_VIDEO_EXTENSIONS = 12 \<and> distinct SUPPORTED_VIDEO_EXTENSIONS"
    by (simp add: SUPPORTED_VIDEO_EXTENSIONS_def)
  have ascii: "lower ul (CHR ''.'' # x) \<in> set SUPPORTED_VIDEO_EXTENSIONS
      \<longleftrightarrow> (\<exists>s\<in>set SUPPORTED_VIDEO_EXTENSIONS. spelling_of (CHR ''.'' # x) s)"
    if "is_ascii x"
    using that lower_ascii_supported [of "CHR ''.'' # x" ul] by (simp add: is_ascii_dot)
  have other: "lower ul (CHR ''.'' # x) = ul (CHR ''.'' # x)" if "\<not> is_ascii x"
    using that by (simp add: lower_def is_ascii_dot)
  have dotted: "(is_video_file ul (join folder (stem @ CHR ''.'' # x))
          \<longleftrightarrow> lower ul (CHR ''.'' # x) \<in> set SUPPORTED_VIDEO_EXTENSIONS)
        \<and> (is_ascii x \<longrightarrow>
             (is_video_file ul (join folder (stem @ CHR ''.'' # x))
              \<longleftrightarrow> (\<exists>s\<in>set SUPPORTED_VIDEO_EXTENSIONS. spelling_of (CHR ''.'' # x) s)))
        \<and> (\<not> is_ascii x \<longrightarrow>
             (is_video_file ul (join folder (stem @ CHR ''.'' # x))
              \<longleftrightarrow> ul (CHR ''.'' # x) \<in> set SUPPORTED_VIDEO_EXTENSIONS))"
    if "(\<exists>c\<in>set stem. c \<noteq> CHR ''.'') \<and> CHR ''/'' \<notin> set stem
      \<and> CHR ''/'' \<notin> set x \<and> CHR ''.'' \<notin> set x"
    using that is_video_file_dotted [of stem x ul folder] ascii other by auto
  show ?thesis
    using twelve dotted is_video_file_undotted [of name ul folder] listing [of ul folder]
    by blast
qed

theorem is_video_file_by_extension_witness:
  "(\<exists>c\<in>set ''Clip''. c \<noteq> CHR ''.'') \<and> CHR ''/'' \<notin> set ''Clip''
   \<and> CHR ''/'' \<notin> set ''MkV'' \<and> CHR ''.'' \<notin> set ''MkV'' \<and> is_ascii ''MkV''
   \<and> spelling_of ''.MkV'' ''.mkv''
   \<and> is_video_file kelvin_lower (join ''/videos'' ''Clip.MkV'')
   \<and> ''notes'' \<noteq> [] \<and> CHR ''/'' \<notin> set ''notes'' \<and> CHR ''.'' \<notin> set ''notes''
   \<and> \<not> is_video_file kelvin_lower (join ''/videos'' ''notes'')
   \<and> (\<exists>c\<in>set ''a''. c \<noteq> CHR ''.'') \<and> CHR ''/'' \<notin> set ''a''
   \<and> CHR ''/'' \<notin> set (tl kelvin_ext) \<and> CHR ''.'' \<notin> set (tl kelvin_ext)
   \<and> \<not> is_ascii (tl kelvin_ext)
   \<and> kelvin_lower (CHR ''.'' # tl kelvin_ext) \<in> set SUPPORTED_VIDEO_EXTENSIONS
   \<and> is_video_file kelvin_lower (join ''/videos'' (''a'' @ CHR ''.'' # tl kelvin_ext))"
proof -
  have s: "spelling_of ''.MkV'' ''.mkv''" "is_ascii ''MkV''"
    by code_simp+
  have m: "''.mkv'' \<in> set SUPPORTED_VIDEO_EXTENSIONS"
    by (simp add: SUPPORTED_VIDEO_EXTENSIONS_def)
  have k: "CHR ''/'' \<notin> set (tl kelvin_ext)" "CHR ''.'' \<notin> set (tl kelvin_ext)"
    "\<not> is_ascii (tl kelvin_ext)"
    "kelvin_lower (CHR ''.'' # tl kelvin_ext) \<in> set SUPPORTED_VIDEO_EXTENSIONS"
    by code_simp+
  have a: "is_video_file kelvin_lower (join ''/videos'' ''Clip.MkV'')
      \<and> \<not> is_video_file kelvin_lower (join ''/videos'' ''notes'')"
    using is_video_file_by_extension [of "''Clip''" "''MkV''" kelvin_lower "''/videos''" "''notes''"]
      s m
    by auto
  have b: "is_video_file kelvin_lower (join ''/videos'' (''a'' @ CHR ''.'' # tl kelvin_ext))"
    using is_video_file_by_extension
      [of "''a''" "tl kelvin_ext" kelvin_lower "''/videos''" "''notes''"] k
    by auto
  show ?thesis
    using s k a b by simp
qed

section \<open>Adding a video under a path that is already catalogued\<close>

lemma fold_max_ge: "(a::int) \<le> fold max xs a"
  by (induction xs arbitrary: a) (auto intro: order_trans [OF max.cobounded2])

lemma fold_max_mem: "(x::int) \<in> set xs \<Longrightarrow> x \<le> fold max xs a"
proof (induction xs arbitrary: a)
  case Nil
  then show ?case by simp
next
  case (Cons y ys)
  show ?case
  proof (cases "x = y")
    case True
    have "max y a \<le> fold max ys (max y a)" by (rule fold_max_ge)
    then show ?thesis using True by simp
  next
    case False
    then show ?thesis using Cons by simp
  qed
qed

lemma add_video_id_fresh:
  "r \<in> set (videos d) \<Longrightarrow> id_col r < fst (add_video d path name folder sz dur added modified)"
  using fold_max_mem [of "id_col r" "map id_col (videos d)" "sqlite_sequence d"]
  by (simp add: add_video_def Let_def)

lemma find_Some_mem: "find P xs = Some x \<Longrightarrow> x \<in> set xs \<and> P x"
  by (induction xs) (auto split: if_splits)

lemma find_append_None: "find P xs = None \<Longrightarrow> find P (xs @ ys) = find P ys"
  by (induction xs) (auto split: if_splits)

text \<open>
  C10. When \<open>add_video\<close> is called with a path that the table already holds, the table
  afterwards holds exactly one row for that path, the row just inserted: its id is
  larger than the id of the old row and differs from every id of the old table, and its
  \<open>watched\<close>, \<open>last_watched\<close> and \<open>last_position\<close> are the defaults 0, NULL and 0,
  whatever the old row held.
\<close>

theorem add_video_replaces_existing_row:
  assumes "get_video_by_path d path = Some old"
    and "add_video d path name folder sz dur added modified = (video_id, d')"
  shows "[r \<leftarrow> videos d'. file_path r = path] =
           [\<lparr>id_col = video_id, file_path = path, file_name = name, folder_path = folder,
             size_col = sz, duration = dur, watched = 0, last_watched = None,
             last_position = 0, date_added = added, date_modified = modified\<rparr>]
         \<and> id_col old < video_id
         \<and> (\<forall>r\<in>set (videos d). id_col r \<noteq> video_id)
         \<and> (\<exists>new. get_video_by_path d' path = Some new \<and> id_col new = video_id
               \<and> watched new = 0 \<and> last_watched new = None \<and> last_position new = 0)"
proof -
  let ?row = "\<lparr>id_col = video_id, file_path = path, file_name = name, folder_path = folder,
             size_col = sz, duration = dur, watched = 0, last_watched = None,
             last_position = 0, date_added = added, date_modified = modified\<rparr>"
  have vid: "video_id = fst (add_video d path name folder sz dur added modified)"
    using assms(2) by simp
  have rows: "videos d' = [r \<leftarrow> videos d. file_path r \<noteq> path] @ [?row]"
    using assms(2) by (auto simp: add_video_def Let_def)
  have one: "[r \<leftarrow> videos d'. file_path r = path] = [?row]"
    unfolding rows by (simp add: filter_empty_conv)
  have old: "old \<in> set (videos d)"
    using assms(1) find_Some_mem [of _ "videos d" old] by (simp add: get_video_by_path_def)
  have fresh: "id_col r < video_id" if "r \<in> set (videos d)" for r
    unfolding vid using that by (rule add_video_id_fresh)
  have get: "get_video_by_path d' path = Some ?row"
    unfolding get_video_by_path_def rows
    by (subst find_append_None) (simp_all add: find_None_iff)
  show ?thesis
    using one old fresh get by (auto simp: less_imp_neq dest: fresh)
qed

theorem add_video_replaces_existing_row_witness:
  "get_video_by_path example_db ''/v/a.mp4'' = Some watched_row
   \<and> watched watched_row = 1 \<and> last_position watched_row = 1500
   \<and> fst (add_video example_db ''/v/a.mp4'' ''a.mp4'' ''/v'' 4096 (Finite 8) ''c'' ''m'') = 2
   \<and> map id_col (videos (snd (add_video example_db ''/v/a.mp4'' ''a.mp4'' ''/v'' 4096 (Finite 8) ''c'' ''m''))) = [2]
   \<and> map watched (videos (snd (add_video example_db ''/v/a.mp4'' ''a.mp4'' ''/v'' 4096 (Finite 8) ''c'' ''m''))) = [0]"
proof -
  have g: "get_video_by_path example_db ''/v/a.mp4'' = Some watched_row"
    by (simp add: get_video_by_path_def example_db_def watched_row_def)
  have a: "add_video example_db ''/v/a.mp4'' ''a.mp4'' ''/v'' 4096 (Finite 8) ''c'' ''m''
      = (2, snd (add_video example_db ''/v/a.mp4'' ''a.mp4'' ''/v'' 4096 (Finite 8) ''c'' ''m''))"
    by (simp add: add_video_def example_db_def watched_row_def)
  show ?thesis
    using add_video_replaces_existing_row [OF g a] g
    by (simp add: add_video_def example_db_def watched_row_def)
qed

section \<open>The order of the signals of one file\<close>

lemma process_file_shape:
  assumes "process_file fs folder file ds = (ds', emitted, submitted)"
  shows "emitted = [] \<and> submitted = []
         \<or> (\<exists>sz dur w ts. emitted = [video_loaded (join folder file) file None sz dur w ts]
               \<and> submitted = [join folder file])"
  using assms
  by (auto simp: process_file_def Let_def split: option.splits prod.splits)

lemma thumbnails_preceded_snoc:
  "thumbnails_preceded (tr @ [e]) \<longleftrightarrow>
     thumbnails_preceded tr
     \<and> (case e of thumbnail_loaded p t \<Rightarrow> list_ex (is_video_loaded p) tr | _ \<Rightarrow> True)"
proof -
  let ?Q = "\<lambda>xs j. case xs ! j of
      thumbnail_loaded p t \<Rightarrow> list_ex (is_video_loaded p) (take j xs) | _ \<Rightarrow> True"
  have old: "?Q (tr @ [e]) j = ?Q tr j" if "j < length tr" for j
    using that by (simp add: nth_append split: event.splits)
  have new: "?Q (tr @ [e]) (length tr) =
      (case e of thumbnail_loaded p t \<Rightarrow> list_ex (is_video_loaded p) tr | _ \<Rightarrow> True)"
    by (simp split: event.splits)
  have "(\<forall>j<length (tr @ [e]). ?Q (tr @ [e]) j)
        \<longleftrightarrow> (\<forall>j<length tr. ?Q (tr @ [e]) j) \<and> ?Q (tr @ [e]) (length tr)"
    by (auto simp: less_Suc_eq)
  also have "\<dots> \<longleftrightarrow> (\<forall>j<length tr. ?Q tr j) \<and> ?Q (tr @ [e]) (length tr)"
    using old by auto
  finally show ?thesis
    unfolding thumbnails_preceded_def new .
qed

lemma thumbnails_preceded_Nil: "thumbnails_preceded []"
  by (simp add: thumbnails_preceded_def)

lemma order_inv_start: "order_inv (start d st)"
  by (simp add: order_inv_def start_def thumbnails_preceded_Nil pending_announced_def)

lemma order_inv_loader: 
  assumes "order_inv s" shows "order_inv (loader_step fs folder files s)"
proof (cases "loader s")
  case AtStart
  then show ?thesis using assms
    by (auto simp: loader_step_def order_inv_def thumbnails_preceded_snoc
        pending_announced_def list_ex_iff)
next
  case (AtLoop i)
  show ?thesis
  proof (cases "i \<ge> length files \<or> loading_canceled s")
    case True
    then show ?thesis using assms AtLoop
      by (auto simp: loader_step_def order_inv_def pending_announced_def)
  next
    case False
    obtain ds' emitted submitted where
      pf: "process_file fs folder (files ! i) (db s, module s) = (ds', emitted, submitted)"
      by (cases "process_file fs folder (files ! i) (db s, module s)") auto
    have step: "loader_step fs folder files s =
        s\<lparr>db := fst ds', module := snd ds', signals := signals s @ emitted,
          thread_pool := thread_pool s @ submitted, loader := AtProgress i\<rparr>"
      using False AtLoop pf by (cases ds') (simp add: loader_step_def Let_def)
    from process_file_shape [OF pf] show ?thesis
    proof
      assume "emitted = [] \<and> submitted = []"
      then show ?thesis using assms step
        by (simp add: order_inv_def pending_announced_def)
    next
      assume "\<exists>sz dur w ts. emitted = [video_loaded (join folder (files ! i)) (files ! i) None sz dur w ts]
               \<and> submitted = [join folder (files ! i)]"
      then show ?thesis using assms step
        by (auto simp: order_inv_def pending_announced_def thumbnails_preceded_snoc list_ex_iff)
    qed
  qed
next
  case (AtProgress i)
  then show ?thesis using assms
    by (auto simp: loader_step_def order_inv_def thumbnails_preceded_snoc
        pending_announced_def list_ex_iff)
next
  case (AfterLoop i)
  then show ?thesis using assms
    by (auto simp: loader_step_def Let_def order_inv_def thumbnails_preceded_snoc
        pending_announced_def list_ex_iff)
next
  case (Finished i final)
  then show ?thesis using assms by (simp add: loader_step_def)
next
  case Failed
  then show ?thesis using assms by (simp add: loader_step_def)
qed

lemma order_inv_loader_raises:
  assumes "order_inv s" shows "order_inv (loader_raises fs folder files k s)"
proof (cases "loader s")
  case (AtLoop i)
  show ?thesis
  proof (cases "i \<ge> length files \<or> loading_canceled s")
    case True
    then show ?thesis using assms AtLoop
      by (auto simp: loader_raises_def order_inv_def pending_announced_def)
  next
    case False
    obtain ds' emitted submitted where
      pf: "process_file fs folder (files ! i) (db s, module s) = (ds', emitted, submitted)"
      by (cases "process_file fs folder (files ! i) (db s, module s)") auto
    have step: "loader_raises fs folder files k s =
        s\<lparr>module := (if 1 \<le> k then snd ds' else module s),
          db := (if 2 \<le> k then fst ds' else db s),
          signals := signals s @ (if 3 \<le> k then emitted else []), loader := Failed\<rparr>"
      using False AtLoop pf by (cases ds') (simp add: loader_raises_def Let_def)
    from process_file_shape [OF pf] show ?thesis
    proof
      assume "emitted = [] \<and> submitted = []"
      then show ?thesis using assms step
        by (simp add: order_inv_def pending_announced_def)
    next
      assume "\<exists>sz dur w ts. emitted = [video_loaded (join folder (files ! i)) (files ! i) None sz dur w ts]
               \<and> submitted = [join folder (files ! i)]"
      then show ?thesis using assms step
        by (auto simp: order_inv_def pending_announced_def thumbnails_preceded_snoc list_ex_iff)
    qed
  qed
qed (use assms in \<open>simp_all add: loader_raises_def order_inv_def pending_announced_def\<close>)

lemma order_inv_worker:
  assumes "order_inv s" shows "order_inv (worker_step fs k s)"
proof (cases "k < length (thread_pool s)")
  case False
  then show ?thesis using assms by (simp add: worker_step_def)
next
  case True
  obtain t st' where ex: "extract_thumbnail fs (thread_pool s ! k) (PyFloat float_0_1)
       \<lparr>width = 320, height = 180\<rparr> (module s) = (t, st')"
    by (cases "extract_thumbnail fs (thread_pool s ! k) (PyFloat float_0_1)
       \<lparr>width = 320, height = 180\<rparr> (module s)") auto
  have step: "worker_step fs k s = s\<lparr>module := st',
       thread_pool := take k (thread_pool s) @ drop (Suc k) (thread_pool s),
       signals := signals s @ [thumbnail_loaded (thread_pool s ! k) t]\<rparr>"
    using True ex by (simp add: worker_step_def Let_def)
  have mem: "thread_pool s ! k \<in> set (thread_pool s)" using True by simp
  have sub: "set (take k (thread_pool s) @ drop (Suc k) (thread_pool s)) \<subseteq> set (thread_pool s)"
    by (auto dest: in_set_takeD in_set_dropD)
  show ?thesis
    unfolding step using assms mem sub
    by (auto simp: order_inv_def pending_announced_def thumbnails_preceded_snoc list_ex_iff
        dest: in_set_takeD in_set_dropD)
qed

lemma order_inv_worker_raises:
  assumes "order_inv s" shows "order_inv (worker_raises fs k s)"
proof (cases "k < length (thread_pool s)")
  case False
  then show ?thesis using assms by (simp add: worker_raises_def)
next
  case True
  obtain t st' where ex: "extract_thumbnail fs (thread_pool s ! k) (PyFloat float_0_1)
       \<lparr>width = 320, height = 180\<rparr> (module s) = (t, st')"
    by (cases "extract_thumbnail fs (thread_pool s ! k) (PyFloat float_0_1)
       \<lparr>width = 320, height = 180\<rparr> (module s)") auto
  have step: "worker_raises fs k s = s\<lparr>module := st',
       thread_pool := take k (thread_pool s) @ drop (Suc k) (thread_pool s)\<rparr>"
    using True ex by (simp add: worker_raises_def Let_def)
  show ?thesis
    unfolding step using assms
    by (auto simp: order_inv_def pending_announced_def dest: in_set_takeD in_set_dropD)
qed

lemma order_inv_flag: "order_inv s \<Longrightarrow> order_inv (s\<lparr>loading_canceled := b\<rparr>)"
  by (simp add: order_inv_def pending_announced_def)

lemma order_inv_step: "order_inv s \<Longrightarrow> order_inv (step folder files c s)"
proof (cases c)
  case (Pair fs ch)
  assume "order_inv s"
  then show ?thesis using Pair
    by (cases ch)
      (simp_all add: order_inv_loader order_inv_loader_raises order_inv_worker
        order_inv_worker_raises order_inv_flag)
qed

lemma order_inv_run: "order_inv s \<Longrightarrow> order_inv (run folder files sched s)"
  by (induction sched arbitrary: s) (simp_all add: order_inv_step)

text \<open>
  C3. In the trace of signals of every run of one ingestion request, under every
  schedule of loader, workers, cancellation and reset of the flag, with any of the steps
  raising, from every catalogue and module state, each thumbnail signal for a path is
  preceded, strictly earlier in the trace, by a video signal for that path; this covers
  files that were new and files that were catalogued.
\<close>

theorem item_ready_before_thumbnail_ready:
  assumes "j < length (signals (run folder files sched (start d st)))"
    and "signals (run folder files sched (start d st)) ! j = thumbnail_loaded p t"
  shows "\<exists>i<j. is_video_loaded p (signals (run folder files sched (start d st)) ! i)"
proof -
  let ?tr = "signals (run folder files sched (start d st))"
  have "thumbnails_preceded ?tr"
    using order_inv_run [OF order_inv_start, of folder files sched d st]
    by (simp add: order_inv_def)
  then have "list_ex (is_video_loaded p) (take j ?tr)"
    using assms by (auto simp: thumbnails_preceded_def split: event.splits)
  then obtain e where e: "e \<in> set (take j ?tr)" "is_video_loaded p e"
    by (auto simp: list_ex_iff)
  then obtain i where "i < length (take j ?tr)" "take j ?tr ! i = e"
    by (auto simp: in_set_conv_nth)
  then show ?thesis using e(2) assms(1) by auto
qed

lemmas example_run_defs =
  example_schedule_def example_fs_def start_def example_db_def watched_row_def
  initial_state_def loader_step_def worker_step_def process_file_def join_def
  get_video_by_path_def get_video_tags_def get_video_metadata_def
  get_video_metadata_wrapped_def example_probe good_metadata_def add_video_def
  extract_thumbnail_def example_thumbnail cache_key_def cache_store_def
  CACHE_SIZE_LIMIT_def lru_maxsize_def c_int_def Let_def

lemma example_run_signals:
  "signals (run ''/v'' [''a.mp4'', ''b.mp4''] example_schedule (start example_db initial_state))
   = [load_progress 0 2,
      video_loaded ''/v/a.mp4'' ''a.mp4'' None 2048 (Finite 4) True [''holiday''],
      load_progress 1 2,
      video_loaded ''/v/b.mp4'' ''b.mp4'' None 2048 (Finite 4) False [],
      thumbnail_loaded ''/v/b.mp4''
        (Some (Scaled (FromImage 320 240) \<lparr>width = 320, height = 180\<rparr>)),
      load_progress 2 2,
      thumbnail_loaded ''/v/a.mp4''
        (Some (Scaled (FromImage 320 240) \<lparr>width = 320, height = 180\<rparr>)),
      load_progress 2 2]"
  by (simp add: example_run_defs)

lemma example_run_finished:
  "loader (run ''/v'' [''a.mp4'', ''b.mp4''] example_schedule (start example_db initial_state))
     = Finished 2 True
   \<and> \<not> loading_canceled
         (run ''/v'' [''a.mp4'', ''b.mp4''] example_schedule (start example_db initial_state))"
  by (simp add: example_run_defs)

theorem item_ready_before_thumbnail_ready_witness:
  "6 < length (signals (run ''/v'' [''a.mp4'', ''b.mp4''] example_schedule
                          (start example_db initial_state)))
   \<and> signals (run ''/v'' [''a.mp4'', ''b.mp4''] example_schedule
                 (start example_db initial_state)) ! 6
       = thumbnail_loaded ''/v/a.mp4''
           (Some (Scaled (FromImage 320 240) \<lparr>width = 320, height = 180\<rparr>))
   \<and> (\<exists>i<6. is_video_loaded ''/v/a.mp4''
                (signals (run ''/v'' [''a.mp4'', ''b.mp4''] example_schedule
                            (start example_db initial_state)) ! i))
   \<and> 4 < length (signals (run ''/v'' [''a.mp4'', ''b.mp4''] example_schedule
                            (start example_db initial_state)))
   \<and> signals (run ''/v'' [''a.mp4'', ''b.mp4''] example_schedule
                 (start example_db initial_state)) ! 4
       = thumbnail_loaded ''/v/b.mp4''
           (Some (Scaled (FromImage 320 240) \<lparr>width = 320, height = 180\<rparr>))
   \<and> (\<exists>i<4. is_video_loaded ''/v/b.mp4''
                (signals (run ''/v'' [''a.mp4'', ''b.mp4''] example_schedule
                            (start example_db initial_state)) ! i))"
proof -
  let ?tr = "signals (run ''/v'' [''a.mp4'', ''b.mp4''] example_schedule
                        (start example_db initial_state))"
  have a1: "6 < length ?tr"
    by (simp add: example_run_signals)
  have a2: "?tr ! 6 = thumbnail_loaded ''/v/a.mp4''
           (Some (Scaled (FromImage 320 240) \<lparr>width = 320, height = 180\<rparr>))"
    by (simp add: example_run_signals)
  have b1: "4 < length ?tr"
    by (simp add: example_run_signals)
  have b2: "?tr ! 4 = thumbnail_loaded ''/v/b.mp4''
           (Some (Scaled (FromImage 320 240) \<lparr>width = 320, height = 180\<rparr>))"
    by (simp add: example_run_signals)
  show ?thesis
    using item_ready_before_thumbnail_ready [OF a1 a2]
      item_ready_before_thumbnail_ready [OF b1 b2] a1 a2 b1 b2
    by blast
qed

section \<open>The progress signals of a request\<close>

lemma progress_append: "progress (xs @ ys) = progress xs @ progress ys"
  by (induction xs rule: progress.induct) simp_all

lemma c_int_small: "0 \<le> n \<Longrightarrow> n < 2147483648 \<Longrightarrow> c_int n = n"
  by (simp add: c_int_def)

lemma progress_sequence_Suc:
  "progress_sequence n i False @ [(int i + 1, int n)] = progress_sequence n (Suc i) False"
  by (simp add: progress_sequence_def)

lemma progress_sequence_final:
  "progress_sequence n i False @ [(int n, int n)] = progress_sequence n i True"
  by (simp add: progress_sequence_def)

lemma progress_inv_start: "progress_inv n (start d st)"
  by (simp add: progress_inv_def start_def)

lemma progress_process_file:
  assumes "process_file fs folder file ds = (ds', emitted, submitted)"
  shows "progress emitted = []"
  using process_file_shape [OF assms] by auto

lemma progress_inv_loader:
  assumes "progress_inv (length files) s" and small: "length files < 2147483648"
  shows "progress_inv (length files) (loader_step fs folder files s)"
proof (cases "loader s")
  case AtStart
  have "c_int (int (length files)) = int (length files)"
    using small by (simp add: c_int_small)
  then show ?thesis using assms AtStart
    by (simp add: loader_step_def progress_inv_def progress_append progress_sequence_def
        c_int_def)
next
  case (AtLoop i)
  show ?thesis
  proof (cases "i \<ge> length files \<or> loading_canceled s")
    case True
    then show ?thesis using assms AtLoop
      by (auto simp: loader_step_def progress_inv_def)
  next
    case False
    obtain ds' emitted submitted where
      pf: "process_file fs folder (files ! i) (db s, module s) = (ds', emitted, submitted)"
      by (cases "process_file fs folder (files ! i) (db s, module s)") auto
    have step: "loader_step fs folder files s =
        s\<lparr>db := fst ds', module := snd ds', signals := signals s @ emitted,
          thread_pool := thread_pool s @ submitted, loader := AtProgress i\<rparr>"
      using False AtLoop pf by (cases ds') (simp add: loader_step_def Let_def)
    have "progress emitted = []"
      by (rule progress_process_file [OF pf])
    then show ?thesis using assms AtLoop False
      unfolding step by (simp add: progress_inv_def progress_append)
  qed
next
  case (AtProgress i)
  then have i: "i < length files" using assms by (simp add: progress_inv_def)
  have c: "c_int (int i + 1) = int i + 1" "c_int (int (length files)) = int (length files)"
    using i small by (simp_all add: c_int_small)
  show ?thesis using assms AtProgress
    by (simp add: loader_step_def progress_inv_def progress_append c
        progress_sequence_Suc [symmetric])
next
  case (AfterLoop i)
  have c: "c_int (int (length files)) = int (length files)"
    using small by (simp add: c_int_small)
  show ?thesis using assms AfterLoop
    by (auto simp: loader_step_def Let_def progress_inv_def progress_append c
        progress_sequence_final)
next
  case (Finished i final)
  then show ?thesis using assms by (simp add: loader_step_def)
next
  case Failed
  then show ?thesis using assms by (simp add: loader_step_def)
qed

lemma progress_inv_loader_raises:
  assumes "progress_inv (length files) s"
  shows "progress_inv (length files) (loader_raises fs folder files k s)"
proof (cases "loader s")
  case AtStart
  then show ?thesis using assms by (simp add: loader_raises_def progress_inv_def)
next
  case (AtLoop i)
  show ?thesis
  proof (cases "i \<ge> length files \<or> loading_canceled s")
    case True
    then show ?thesis using assms AtLoop
      by (auto simp: loader_raises_def progress_inv_def)
  next
    case False
    obtain ds' emitted submitted where
      pf: "process_file fs folder (files ! i) (db s, module s) = (ds', emitted, submitted)"
      by (cases "process_file fs folder (files ! i) (db s, module s)") auto
    have step: "loader_raises fs folder files k s =
        s\<lparr>module := (if 1 \<le> k then snd ds' else module s),
          db := (if 2 \<le> k then fst ds' else db s),
          signals := signals s @ (if 3 \<le> k then emitted else []), loader := Failed\<rparr>"
      using False AtLoop pf by (cases ds') (simp add: loader_raises_def Let_def)
    have e: "progress emitted = []"
      by (rule progress_process_file [OF pf])
    have "i \<le> length files
        \<and> progress (signals s) = progress_sequence (length files) i False"
      using assms AtLoop by (simp add: progress_inv_def)
    then have "\<exists>k\<le>length files.
        progress (signals s) = progress_sequence (length files) k False"
      by blast
    then show ?thesis
      unfolding step using e by (simp add: progress_inv_def progress_append)
  qed
next
  case (AtProgress i)
  then show ?thesis using assms
    by (auto simp: loader_raises_def progress_inv_def intro: less_imp_le)
next
  case (AfterLoop i)
  then show ?thesis using assms by (auto simp: loader_raises_def progress_inv_def)
next
  case (Finished i final)
  then show ?thesis using assms by (simp add: loader_raises_def)
next
  case Failed
  then show ?thesis using assms by (simp add: loader_raises_def)
qed

lemma progress_inv_worker:
  assumes "progress_inv n s" shows "progress_inv n (worker_step fs k s)"
proof (cases "k < length (thread_pool s)")
  case False
  then show ?thesis using assms by (simp add: worker_step_def)
next
  case True
  obtain t st' where ex: "extract_thumbnail fs (thread_pool s ! k) (PyFloat float_0_1)
       \<lparr>width = 320, height = 180\<rparr> (module s) = (t, st')"
    by (cases "extract_thumbnail fs (thread_pool s ! k) (PyFloat float_0_1)
       \<lparr>width = 320, height = 180\<rparr> (module s)") auto
  have step: "worker_step fs k s = s\<lparr>module := st',
       thread_pool := take k (thread_pool s) @ drop (Suc k) (thread_pool s),
       signals := signals s @ [thumbnail_loaded (thread_pool s ! k) t]\<rparr>"
    using True ex by (simp add: worker_step_def Let_def)
  show ?thesis
    unfolding step using assms
    by (simp add: progress_inv_def progress_append split: pc.splits)
qed

lemma progress_inv_worker_raises:
  assumes "progress_inv n s" shows "progress_inv n (worker_raises fs k s)"
proof (cases "k < length (thread_pool s)")
  case False
  then show ?thesis using assms by (simp add: worker_raises_def)
next
  case True
  obtain t st' where ex: "extract_thumbnail fs (thread_pool s ! k) (PyFloat float_0_1)
       \<lparr>width = 320, height = 180\<rparr> (module s) = (t, st')"
    by (cases "extract_thumbnail fs (thread_pool s ! k) (PyFloat float_0_1)
       \<lparr>width = 320, height = 180\<rparr> (module s)") auto
  have step: "worker_raises fs k s = s\<lparr>module := st',
       thread_pool := take k (thread_pool s) @ drop (Suc k) (thread_pool s)\<rparr>"
    using True ex by (simp add: worker_raises_def Let_def)
  show ?thesis
    unfolding step using assms
    by (simp add: progress_inv_def split: pc.splits)
qed

lemma progress_inv_flag:
  "progress_inv n s \<Longrightarrow> progress_inv n (s\<lparr>loading_canceled := b\<rparr>)"
  by (simp add: progress_inv_def split: pc.splits)

lemma progress_inv_step:
  assumes "progress_inv (length files) s" "length files < 2147483648"
  shows "progress_inv (length files) (step folder files c s)"
proof (cases c)
  case (Pair fs ch)
  then show ?thesis using assms
    by (cases ch)
      (simp_all add: progress_inv_loader progress_inv_loader_raises progress_inv_worker
        progress_inv_worker_raises progress_inv_flag)
qed

lemma progress_inv_run:
  assumes "length files < 2147483648"
  shows "progress_inv (length files) s
         \<Longrightarrow> progress_inv (length files) (run folder files sched s)"
  by (induction sched arbitrary: s) (simp_all add: progress_inv_step assms)

lemma sorted_progress_sequence:
  assumes "k \<le> n" shows "sorted (map fst (progress_sequence n k final))"
proof -
  have m: "map (fst \<circ> (\<lambda>i. (int i + 1, int n))) [0..<k] = map (\<lambda>i. int i + 1) [0..<k]"
    by (simp add: comp_def)
  have "sorted_wrt (\<lambda>x y. int x + 1 \<le> int y + 1) [0..<k]"
    by (rule sorted_wrt_mono_rel [OF _ sorted_wrt_upt]) simp
  then have s: "sorted (map (\<lambda>i. int i + 1) [0..<k])"
    by (simp add: sorted_map)
  show ?thesis
    using assms s by (auto simp: progress_sequence_def m sorted_append)
qed

text \<open>A step of an undisturbed schedule keeps the request uncancelled, and brings the
  loader one step nearer to its end if it is a step of the loader.\<close>

lemma remaining_loader_step:
  assumes "\<not> loading_canceled s" "remaining (length files) (loader s) = Some r"
  shows "\<not> loading_canceled (loader_step fs folder files s)
         \<and> remaining (length files) (loader (loader_step fs folder files s)) = Some (r - 1)"
proof (cases "loader s")
  case AtStart
  then show ?thesis using assms by (auto simp: loader_step_def Let_def)
next
  case (AtLoop i)
  then show ?thesis using assms
    by (auto simp: loader_step_def Let_def split: prod.splits if_splits)
next
  case (AtProgress i)
  then show ?thesis using assms
    by (auto simp: loader_step_def Let_def split: if_splits)
next
  case (AfterLoop i)
  then show ?thesis using assms
    by (auto simp: loader_step_def Let_def split: if_splits)
next
  case (Finished i final)
  then show ?thesis using assms
    by (auto simp: loader_step_def Let_def split: if_splits)
next
  case Failed
  then show ?thesis using assms by simp
qed

lemma remaining_step:
  assumes "\<not> loading_canceled s" "remaining (length files) (loader s) = Some r"
    "undisturbed [c]"
  shows "\<not> loading_canceled (step folder files c s)
         \<and> remaining (length files) (loader (step folder files c s))
             = Some (r - loader_steps [c])"
proof (cases c)
  case (Pair fs ch)
  show ?thesis
  proof (cases ch)
    case Loader
    then show ?thesis using Pair remaining_loader_step [OF assms(1,2)]
      by (simp add: loader_steps_def)
  next
    case (LoaderRaises k)
    then show ?thesis using Pair assms(3) by (simp add: undisturbed_def)
  next
    case (Worker k)
    then show ?thesis using Pair assms(1,2)
      by (simp add: loader_steps_def worker_step_def Let_def split: prod.splits)
  next
    case (WorkerRaises k)
    then show ?thesis using Pair assms(1,2)
      by (simp add: loader_steps_def worker_raises_def Let_def split: prod.splits)
  next
    case Cancel
    then show ?thesis using Pair assms(3) by (simp add: undisturbed_def)
  next
    case Reset
    then show ?thesis using Pair assms(1,2) by (simp add: loader_steps_def)
  qed
qed

lemma remaining_run:
  assumes "undisturbed sched" "\<not> loading_canceled s"
    "remaining (length files) (loader s) = Some r"
  shows "\<not> loading_canceled (run folder files sched s)
         \<and> remaining (length files) (loader (run folder files sched s))
             = Some (r - loader_steps sched)"
  using assms
proof (induction sched arbitrary: s r)
  case Nil
  then show ?case by (simp add: loader_steps_def)
next
  case (Cons c sched)
  have u: "undisturbed [c]" "undisturbed sched"
    using Cons.prems(1) by (simp_all add: undisturbed_def)
  note st = remaining_step [OF Cons.prems(2,3) u(1), of folder]
  have "r - loader_steps [c] - loader_steps sched = r - loader_steps (c # sched)"
    by (simp add: loader_steps_def)
  then show ?case
    using Cons.IH [OF u(2) conjunct1 [OF st] conjunct2 [OF st]] by simp
qed

lemma remaining_zero: "remaining n l = Some 0 \<Longrightarrow> l = Finished n True"
  by (cases l) (auto split: if_splits)

text \<open>Undisturbed, the loader needs one step for the initial signal, two steps per
  file and two more to end with the final signal.\<close>

lemma loader_runs_to_end:
  assumes "undisturbed sched" "2 * length files + 3 \<le> loader_steps sched"
  shows "loader (run folder files sched (start d st)) = Finished (length files) True
         \<and> \<not> loading_canceled (run folder files sched (start d st))"
proof -
  have "\<not> loading_canceled (start d st)"
    "remaining (length files) (loader (start d st)) = Some (2 * length files + 3)"
    by (simp_all add: start_def)
  from remaining_run [OF assms(1) this, of folder] show ?thesis
    using assms(2) remaining_zero [of "length files"] by simp
qed

text \<open>
  C5. In every run of one ingestion request over \<open>n\<close> files, fewer than \<open>2 ^ 31\<close>, under
  every schedule, the progress signals emitted so far are none, or the initial (0, n)
  followed by (1, n), ..., (k, n) for the k files processed so far, in order, followed
  or not by the final (n, n); their processed counters never decrease; when the loader
  has ended without raising, having left the loop at file \<open>i\<close>, the signals are those
  up to (i, n), and the final (n, n) is the last of them if the flag was not set when
  the loader tested it behind the loop; and under every schedule in which nobody cancels
  and the loader does not raise, and which gives the loader 2n + 3 steps, the loader
  ends behind all n files with the whole sequence, the final (n, n) included.
\<close>

theorem progress_signals_in_order:
  assumes "length files < 2147483648"
  shows "(progress (signals (run folder files sched (start d st))) = []
     \<or> (\<exists>k final. k \<le> length files
          \<and> progress (signals (run folder files sched (start d st)))
              = progress_sequence (length files) k final))
   \<and> sorted (map fst (progress (signals (run folder files sched (start d st)))))
   \<and> (loader (run folder files sched (start d st)) = Finished i final
      \<longrightarrow> i \<le> length files
          \<and> progress (signals (run folder files sched (start d st)))
              = progress_sequence (length files) i final
          \<and> (final \<longrightarrow> last (progress (signals (run folder files sched (start d st))))
                          = (int (length files), int (length files))))
   \<and> (undisturbed sched \<and> 2 * length files + 3 \<le> loader_steps sched
      \<longrightarrow> loader (run folder files sched (start d st)) = Finished (length files) True
          \<and> \<not> loading_canceled (run folder files sched (start d st))
          \<and> progress (signals (run folder files sched (start d st)))
              = progress_sequence (length files) (length files) True)"
proof -
  let ?s = "run folder files sched (start d st)"
  let ?n = "length files"
  have inv: "progress_inv ?n ?s"
    by (rule progress_inv_run [OF assms progress_inv_start])
  have shape: "progress (signals ?s) = []
     \<or> (\<exists>k final. k \<le> ?n \<and> progress (signals ?s) = progress_sequence ?n k final)"
  proof (cases "loader ?s")
    case AtStart
    then show ?thesis using inv by (simp add: progress_inv_def)
  next
    case (AtLoop k)
    then have "k \<le> ?n \<and> progress (signals ?s) = progress_sequence ?n k False"
      using inv by (simp add: progress_inv_def)
    then show ?thesis by (intro disjI2 exI [of _ k] exI [of _ False])
  next
    case (AtProgress k)
    then have "k \<le> ?n \<and> progress (signals ?s) = progress_sequence ?n k False"
      using inv by (simp add: progress_inv_def)
    then show ?thesis by (intro disjI2 exI [of _ k] exI [of _ False])
  next
    case (AfterLoop k)
    then have "k \<le> ?n \<and> progress (signals ?s) = progress_sequence ?n k False"
      using inv by (simp add: progress_inv_def)
    then show ?thesis by (intro disjI2 exI [of _ k] exI [of _ False])
  next
    case (Finished k fin)
    then have "k \<le> ?n \<and> progress (signals ?s) = progress_sequence ?n k fin"
      using inv by (simp add: progress_inv_def)
    then show ?thesis by (intro disjI2 exI [of _ k] exI [of _ fin])
  next
    case Failed
    then have "progress (signals ?s) = []
        \<or> (\<exists>k\<le>?n. progress (signals ?s) = progress_sequence ?n k False)"
      using inv by (simp add: progress_inv_def)
    then show ?thesis
    proof
      assume "progress (signals ?s) = []"
      then show ?thesis by simp
    next
      assume "\<exists>k\<le>?n. progress (signals ?s) = progress_sequence ?n k False"
      then obtain k where "k \<le> ?n \<and> progress (signals ?s) = progress_sequence ?n k False"
        by blast
      then show ?thesis by (intro disjI2 exI [of _ k] exI [of _ False])
    qed
  qed
  have srt: "sorted (map fst (progress (signals ?s)))"
  proof -
    from shape show ?thesis
    proof
      assume "progress (signals ?s) = []"
      then show ?thesis by simp
    next
      assume "\<exists>k final. k \<le> ?n \<and> progress (signals ?s) = progress_sequence ?n k final"
      then obtain k fin where "k \<le> ?n"
        "progress (signals ?s) = progress_sequence ?n k fin"
        by blast
      then show ?thesis by (simp add: sorted_progress_sequence)
    qed
  qed
  have fin: "loader ?s = Finished i final
      \<longrightarrow> i \<le> ?n \<and> progress (signals ?s) = progress_sequence ?n i final
          \<and> (final \<longrightarrow> last (progress (signals ?s)) = (int ?n, int ?n))"
  proof
    assume a: "loader ?s = Finished i final"
    then have p: "i \<le> ?n \<and> progress (signals ?s) = progress_sequence ?n i final"
      using inv by (simp add: progress_inv_def)
    have "last (progress_sequence ?n i True) = (int ?n, int ?n)"
      by (simp add: progress_sequence_def)
    then show "i \<le> ?n \<and> progress (signals ?s) = progress_sequence ?n i final
          \<and> (final \<longrightarrow> last (progress (signals ?s)) = (int ?n, int ?n))"
      using p by auto
  qed
  have live: "undisturbed sched \<and> 2 * ?n + 3 \<le> loader_steps sched
      \<longrightarrow> loader ?s = Finished ?n True \<and> \<not> loading_canceled ?s
          \<and> progress (signals ?s) = progress_sequence ?n ?n True"
  proof
    assume "undisturbed sched \<and> 2 * ?n + 3 \<le> loader_steps sched"
    then have e: "loader ?s = Finished ?n True \<and> \<not> loading_canceled ?s"
      using loader_runs_to_end [of sched files folder d st] by simp
    then have "progress (signals ?s) = progress_sequence ?n ?n True"
      using inv by (simp add: progress_inv_def)
    then show "loader ?s = Finished ?n True \<and> \<not> loading_canceled ?s
        \<and> progress (signals ?s) = progress_sequence ?n ?n True"
      using e by simp
  qed
  show ?thesis
    by (rule conjI [OF shape conjI [OF srt conjI [OF fin live]]])
qed

lemma overtaken_run:
  "loader (run ''/v'' [''a.mp4'', ''b.mp4''] overtaken_schedule (start example_db initial_state))
     = Finished 0 True
   \<and> progress (signals (run ''/v'' [''a.mp4'', ''b.mp4''] overtaken_schedule
                           (start example_db initial_state)))
       = [(0, 2), (2, 2)]"
  by (simp add: overtaken_schedule_def example_run_defs)

lemma raising_run:
  "loader (run ''/v'' [''a.mp4'', ''b.mp4''] raising_schedule (start example_db initial_state))
     = Failed
   \<and> progress (signals (run ''/v'' [''a.mp4'', ''b.mp4''] raising_schedule
                           (start example_db initial_state)))
       = [(0, 2)]"
  by (simp add: raising_schedule_def loader_raises_def example_run_defs)

theorem progress_signals_in_order_witness:
  "length [''a.mp4'', ''b.mp4''] < 2147483648
   \<and> undisturbed example_schedule
   \<and> 2 * length [''a.mp4'', ''b.mp4''] + 3 \<le> loader_steps example_schedule
   \<and> loader (run ''/v'' [''a.mp4'', ''b.mp4''] example_schedule (start example_db initial_state))
       = Finished 2 True
   \<and> progress (signals
         (run ''/v'' [''a.mp4'', ''b.mp4''] example_schedule (start example_db initial_state)))
       = [(0, 2), (1, 2), (2, 2), (2, 2)]
   \<and> loader (run ''/v'' [''a.mp4'', ''b.mp4''] overtaken_schedule
                (start example_db initial_state))
       = Finished 0 True
   \<and> progress (signals
         (run ''/v'' [''a.mp4'', ''b.mp4''] overtaken_schedule (start example_db initial_state)))
       = [(0, 2), (2, 2)]
   \<and> last (progress (signals
         (run ''/v'' [''a.mp4'', ''b.mp4''] overtaken_schedule (start example_db initial_state))))
       = (2, 2)
   \<and> loader (run ''/v'' [''a.mp4'', ''b.mp4''] raising_schedule
                (start example_db initial_state))
       = Failed
   \<and> progress (signals
         (run ''/v'' [''a.mp4'', ''b.mp4''] raising_schedule (start example_db initial_state)))
       = [(0, 2)]"
proof -
  let ?s = "run ''/v'' [''a.mp4'', ''b.mp4''] example_schedule (start example_db initial_state)"
  let ?o = "run ''/v'' [''a.mp4'', ''b.mp4''] overtaken_schedule (start example_db initial_state)"
  have len: "length [''a.mp4'', ''b.mp4''] < 2147483648"
    by simp
  note t = progress_signals_in_order [OF len, of "''/v''" example_schedule
        example_db initial_state 2 True]
  note o = progress_signals_in_order [OF len, of "''/v''" overtaken_schedule
        example_db initial_state 0 True]
  have u: "undisturbed example_schedule"
    by (simp add: undisturbed_def example_schedule_def)
  have l: "2 * length [''a.mp4'', ''b.mp4''] + 3 \<le> loader_steps example_schedule"
    by (simp add: loader_steps_def example_schedule_def)
  have f: "loader ?s = Finished (length [''a.mp4'', ''b.mp4'']) True"
    using t u l by blast
  have p: "progress (signals ?s)
      = progress_sequence (length [''a.mp4'', ''b.mp4'']) (length [''a.mp4'', ''b.mp4'']) True"
    using t u l by blast
  have v: "progress_sequence (length [''a.mp4'', ''b.mp4'']) (length [''a.mp4'', ''b.mp4''])
      True = [(0, 2), (1, 2), (2, 2), (2, 2)]"
    by (simp add: progress_sequence_def upt_rec)
  have q: "last (progress (signals ?o))
      = (int (length [''a.mp4'', ''b.mp4'']), int (length [''a.mp4'', ''b.mp4'']))"
    using o overtaken_run by blast
  show ?thesis
    using len u l f p v q overtaken_run raising_run by simp
qed

section \<open>Files that are already catalogued\<close>

text \<open>
  C4. The size of a catalogued file does not arrive as stored when it does not fit a C
  \<open>int\<close>. The catalogue holds one video, \<open>/v/a.mp4\<close>, of 5000000000 bytes, 4 seconds,
  watched, with the tag \<open>holiday\<close>. Processing \<open>a.mp4\<close> in \<open>/v\<close> leaves the catalogue
  and the module state as they were, on any file system, so there is still one entry
  for the path and nothing was probed, and it emits the video signal with the stored
  duration, watched flag and tag, but with the size 705032704, which is 5000000000
  reduced modulo \<open>2 ^ 32\<close>.
\<close>

theorem existing_entry_size_wraps:
  "get_video_by_path large_db ''/v/a.mp4'' = Some (watched_row\<lparr>size_col := 5000000000\<rparr>)
   \<and> process_file example_fs ''/v'' ''a.mp4'' (large_db, initial_state)
       = ((large_db, initial_state),
          [video_loaded ''/v/a.mp4'' ''a.mp4'' None 705032704 (Finite 4) True [''holiday'']],
          [''/v/a.mp4''])
   \<and> length [r \<leftarrow> videos large_db. file_path r = ''/v/a.mp4''] = 1
   \<and> c_int 5000000000 = 705032704
   \<and> c_int 2048 = 2048"
  by (simp add: process_file_def join_def get_video_by_path_def get_video_tags_def large_db_def
      example_db_def watched_row_def c_int_def Let_def)

end
